theory Spec2Isabelle
  imports Complex_Main "HOL-Library.Word"
begin

section \<open>The PKCS#12 key derivation function of oscrypto\<close>

text \<open>
  A shallow embedding of \<^verbatim>\<open>pkcs12_kdf\<close> from \<^verbatim>\<open>oscrypto/_pkcs12.py\<close> (RFC 7292,
  appendix B.2), read as Python 3 runs it. The function is embedded statement by
  statement: the argument checks in their order, the password re-encoding, the blocks
  D, S, P and I, the main loop with its steps 6A, 6B, 6C and 7, and the final slice.

  What the source imports is not part of it and enters the model as follows.
  \<^item> \<^verbatim>\<open>hashlib\<close> is a parameter: a function from an algorithm name to a digest function
    on byte strings. Every call of a digest is counted, so that "no hashing" and
    "exactly so many applications" are statements about the model.
  \<^item> \<^verbatim>\<open>int_from_bytes\<close> and \<^verbatim>\<open>int_to_bytes\<close> of \<^verbatim>\<open>asn1crypto.int\<close> and the two codecs
    \<^verbatim>\<open>utf-8\<close> and \<^verbatim>\<open>utf-16be\<close> are written out below.
  \<^item> Python's \<^verbatim>\<open>int(math.ceil(float(a) / b))\<close> is written out for the argument
    \<^verbatim>\<open>key_length\<close>, which is any integer: the conversion to \<^verbatim>\<open>float\<close> rounds from
    \<open>2 ^ 53\<close> on and raises \<^verbatim>\<open>OverflowError\<close> from about \<open>2 ^ 1024\<close> on. For the length
    of a byte string, which is below \<open>2 ^ 53\<close>, the expression is the exact ceiling of
    the quotient (lemma \<open>py_ceil_exact\<close>). The limits of memory are outside the model.
\<close>

subsection \<open>Python values, exceptions and outcomes\<close>

type_synonym byte = "8 word"
type_synonym bytes = "byte list"

text \<open>
  The dynamically typed arguments: byte strings, text, integers (a \<^verbatim>\<open>bool\<close> is the
  integer it equals), floats by their value, \<^verbatim>\<open>None\<close>, and \<open>PyList\<close> for a value that
  cannot be hashed, such as a list, a dict, a set or a bytearray. In this function an
  infinity or a NaN behaves like any float other than 1.0, 2.0 and 3.0, and a
  \<^verbatim>\<open>Decimal\<close>, a \<^verbatim>\<open>Fraction\<close> or a complex number like the float of its value: such a
  number is no integer for \<^verbatim>\<open>isinstance\<close> and for \<^verbatim>\<open>bytes([x])\<close>, and it is in
  \<^verbatim>\<open>{1, 2, 3}\<close> when it equals 1, 2 or 3.
\<close>

datatype pyval = PyBytes bytes | PyStr string | PyInt int | PyFloat real | PyNone | PyList

text \<open>
  One constructor for each \<^verbatim>\<open>raise\<close> of the source, in its order; the offending value
  that the source formats into the message is kept where it is a number.
\<close>

datatype message =
    PasswordNotBytes
  | SaltNotBytes
  | IterationsNotInt
  | IterationsTooSmall int
  | KeyLengthNotInt
  | KeyLengthTooSmall int
  | BadHashAlgorithm
  | BadId

text \<open>
  The exception classes. Every \<^verbatim>\<open>raise\<close> of the source is a \<^verbatim>\<open>ValueError\<close>. The
  operations it calls raise the others: \<^verbatim>\<open>bytes.decode\<close> a \<^verbatim>\<open>UnicodeDecodeError\<close>, a
  dictionary lookup a \<^verbatim>\<open>KeyError\<close>, a membership test in a set a \<^verbatim>\<open>TypeError\<close> for a
  value that cannot be hashed, \<^verbatim>\<open>bytes([x])\<close> a \<^verbatim>\<open>TypeError\<close> for an \<open>x\<close> that is not an
  integer, and \<^verbatim>\<open>float(n)\<close> an \<^verbatim>\<open>OverflowError\<close> for an integer beyond the range of
  \<^verbatim>\<open>float\<close>.
\<close>

datatype type_error = UnhashableType | NotAnInteger

datatype exn =
    TypeError type_error
  | ValueError message
  | UnicodeDecodeError
  | KeyError
  | OverflowError

text \<open>A call returns a value, raises, or never returns.\<close>

datatype 'a outcome = Returned 'a | Raised exn | Diverged

subsection \<open>The imported helpers\<close>

text \<open>
  Modelled from the spec: the Big-Endian Arithmetic Helper, \<^verbatim>\<open>asn1crypto.int\<close>, which
  the source imports. \<^verbatim>\<open>int_from_bytes\<close> reads a byte string as a big-endian unsigned
  integer (the empty string as 0). \<^verbatim>\<open>int_to_bytes\<close> is called without a width, so it
  cannot pad: it returns the big-endian digits of the value with no leading zero byte,
  which is why the source has to cut the result when it is longer than \<open>v\<close>.
\<close>

definition int_from_bytes :: "bytes \<Rightarrow> nat" where
  "int_from_bytes value = foldl (\<lambda>acc b. acc * 256 + unat b) 0 value"

function int_to_bytes :: "nat \<Rightarrow> bytes" where
  "int_to_bytes value =
     (if value = 0 then [] else int_to_bytes (value div 256) @ [of_nat (value mod 256)])"
  by pat_completeness auto
termination
  by (relation "measure id") auto

declare int_to_bytes.simps [simp del]

text \<open>
  Modelled from the spec: Python's strict \<^verbatim>\<open>utf-8\<close> decoder, \<^verbatim>\<open>password.decode('utf-8')\<close>.
  It yields the code points, or nothing where Python raises \<^verbatim>\<open>UnicodeDecodeError\<close>:
  a stray continuation byte, a truncated or overlong sequence, an encoded surrogate,
  a value above \<^verbatim>\<open>U+10FFFF\<close>.
\<close>

definition cont :: "byte \<Rightarrow> bool" where
  "cont b = (0x80 \<le> b \<and> b \<le> 0xBF)"

fun utf8_decode :: "bytes \<Rightarrow> nat list option" where
  "utf8_decode [] = Some []"
| "utf8_decode (b0 # bs) =
     (if b0 < 0x80 then map_option ((#) (unat b0)) (utf8_decode bs)
      else if 0xC2 \<le> b0 \<and> b0 \<le> 0xDF then
        (case bs of
           b1 # r \<Rightarrow>
             if cont b1
             then map_option ((#) ((unat b0 - 0xC0) * 0x40 + (unat b1 - 0x80))) (utf8_decode r)
             else None
         | _ \<Rightarrow> None)
      else if 0xE0 \<le> b0 \<and> b0 \<le> 0xEF then
        (case bs of
           b1 # b2 # r \<Rightarrow>
             if (if b0 = 0xE0 then 0xA0 else 0x80) \<le> b1
                \<and> b1 \<le> (if b0 = 0xED then 0x9F else 0xBF) \<and> cont b2
             then map_option
                    ((#) ((unat b0 - 0xE0) * 0x1000 + (unat b1 - 0x80) * 0x40 + (unat b2 - 0x80)))
                    (utf8_decode r)
             else None
         | _ \<Rightarrow> None)
      else if 0xF0 \<le> b0 \<and> b0 \<le> 0xF4 then
        (case bs of
           b1 # b2 # b3 # r \<Rightarrow>
             if (if b0 = 0xF0 then 0x90 else 0x80) \<le> b1
                \<and> b1 \<le> (if b0 = 0xF4 then 0x8F else 0xBF) \<and> cont b2 \<and> cont b3
             then map_option
                    ((#) ((unat b0 - 0xF0) * 0x40000 + (unat b1 - 0x80) * 0x1000
                          + (unat b2 - 0x80) * 0x40 + (unat b3 - 0x80)))
                    (utf8_decode r)
             else None
         | _ \<Rightarrow> None)
      else None)"

text \<open>
  Modelled from the spec: Python's \<^verbatim>\<open>utf-16be\<close> encoder, \<^verbatim>\<open>text.encode('utf-16be')\<close>:
  two bytes for a code point of the basic plane, a surrogate pair above it, no byte
  order mark.
\<close>

definition utf16be_unit :: "nat \<Rightarrow> bytes" where
  "utf16be_unit x = [of_nat (x div 0x100), of_nat (x mod 0x100)]"

fun utf16be_encode :: "nat list \<Rightarrow> bytes" where
  "utf16be_encode [] = []"
| "utf16be_encode (cp # cps) =
     (if cp < 0x10000 then utf16be_unit cp
      else utf16be_unit (0xD800 + (cp - 0x10000) div 0x400)
           @ utf16be_unit (0xDC00 + (cp - 0x10000) mod 0x400))
     @ utf16be_encode cps"

subsection \<open>Digest parameters\<close>

text \<open>The set literal of the check and the dictionary \<^verbatim>\<open>u\<close>; \<^verbatim>\<open>v\<close> is 128 for the two long digests.\<close>

definition supported :: "string list" where
  "supported = [''md5'', ''sha1'', ''sha224'', ''sha256'', ''sha384'', ''sha512'']"

definition digest_size :: "string \<rightharpoonup> nat" where
  "digest_size =
     [''md5'' \<mapsto> 16, ''sha1'' \<mapsto> 20, ''sha224'' \<mapsto> 28,
      ''sha256'' \<mapsto> 32, ''sha384'' \<mapsto> 48, ''sha512'' \<mapsto> 64]"

definition block_size :: "string \<Rightarrow> nat" where
  "block_size hash_algorithm = (if hash_algorithm \<in> set [''sha384'', ''sha512''] then 128 else 64)"

subsection \<open>Building the blocks D, S and P\<close>

text \<open>
  \<^verbatim>\<open>int(math.ceil(float(a) / b))\<close> for the length \<open>a\<close> of a byte string and a positive
  \<open>b\<close>: the ceiling of the quotient.
\<close>

definition ceil_div :: "nat \<Rightarrow> nat \<Rightarrow> nat" where
  "ceil_div a b = (if a mod b = 0 then a div b else a div b + 1)"

text \<open>
  The same expression for an arbitrary integer \<open>a \<ge> 0\<close>, as the arithmetic of
  \<^verbatim>\<open>float\<close> computes it. A \<^verbatim>\<open>float\<close> is an IEEE 754 double: 53 significant bits, every
  result rounded to the nearest double, a tie to the one with an even last bit.
  \<open>round_half_even N D\<close> is the quotient \<open>N / D\<close> rounded to an integer in this way;
  \<open>shift_down\<close> and \<open>shift_up\<close> find the power of two by which a quotient is scaled
  to 53 bits, counting up from \<open>e\<close> and \<open>k\<close>.
\<close>

definition round_half_even :: "nat \<Rightarrow> nat \<Rightarrow> nat" where
  "round_half_even N D =
     (let q = N div D; r = N mod D
      in if 2 * r < D then q else if D < 2 * r then q + 1 else if even q then q else q + 1)"

function shift_down :: "nat \<Rightarrow> nat \<Rightarrow> nat \<Rightarrow> nat" where
  "shift_down N D e = (if D = 0 \<or> N < 2 ^ 53 * D * 2 ^ e then e else shift_down N D (e + 1))"
  by pat_completeness auto
termination
proof (relation "measure (\<lambda>(N, D, e). N - 2 ^ e)")
  fix N D e :: nat
  assume "\<not> (D = 0 \<or> N < 2 ^ 53 * D * 2 ^ e)"
  then have N: "2 ^ 53 * D * 2 ^ e \<le> N" and D: "0 < D" by simp_all
  have "(2 :: nat) \<le> 2 ^ 53 * D" using D by simp
  then have "2 * 2 ^ e \<le> 2 ^ 53 * D * (2 ^ e :: nat)" by (rule mult_le_mono1)
  then have "2 * 2 ^ e \<le> N" using N by (rule order_trans)
  then have "(2 :: nat) ^ (e + 1) \<le> N" by simp
  moreover have "(2 :: nat) ^ e < 2 ^ (e + 1)" by simp
  ultimately have "N - 2 ^ (e + 1) < N - 2 ^ e" by arith
  then show "((N, D, e + 1), (N, D, e)) \<in> measure (\<lambda>(N, D, e). N - 2 ^ e)" by simp
qed simp

function shift_up :: "nat \<Rightarrow> nat \<Rightarrow> nat \<Rightarrow> nat" where
  "shift_up N D k = (if N = 0 \<or> 2 ^ 52 * D \<le> N * 2 ^ k then k else shift_up N D (k + 1))"
  by pat_completeness auto
termination
proof (relation "measure (\<lambda>(N, D, k). 2 ^ 52 * D - N * 2 ^ k)")
  fix N D k :: nat
  assume "\<not> (N = 0 \<or> 2 ^ 52 * D \<le> N * 2 ^ k)"
  then have "N * 2 ^ k < 2 ^ 52 * D" and "0 < N" by simp_all
  moreover have "N * 2 ^ k < N * 2 ^ (k + 1)" using \<open>0 < N\<close> by simp
  ultimately have "2 ^ 52 * D - N * 2 ^ (k + 1) < 2 ^ 52 * D - N * 2 ^ k" by arith
  then show "((N, D, k + 1), (N, D, k)) \<in> measure (\<lambda>(N, D, k). 2 ^ 52 * D - N * 2 ^ k)"
    by simp
qed simp

declare shift_down.simps [simp del] shift_up.simps [simp del]

text \<open>
  \<^verbatim>\<open>float(n)\<close> for an integer \<open>n \<ge> 0\<close>: the value of the nearest double, which is an
  integer again, or nothing where Python raises \<^verbatim>\<open>OverflowError\<close>, that is when \<open>n\<close> or
  its rounding reaches \<open>2 ^ 1024\<close>.
\<close>

definition py_float :: "nat \<Rightarrow> nat option" where
  "py_float n =
     (if 2 ^ 1024 \<le> n then None
      else (let e = shift_down n 1 0;
                x = round_half_even n (2 ^ e) * 2 ^ e
            in if 2 ^ 1024 \<le> x then None else Some x))"

text \<open>
  \<^verbatim>\<open>math.ceil(x / b)\<close> for a \<^verbatim>\<open>float\<close> \<open>x\<close> of integer value \<open>N\<close> and an integer
  \<open>b > 0\<close>: the quotient is rounded to 53 bits, then the ceiling is taken. A quotient of
  \<open>2 ^ 52\<close> or more rounds to an integer, a smaller one to a multiple of \<open>1 / 2 ^ k\<close>.
\<close>

definition float_div_ceil :: "nat \<Rightarrow> nat \<Rightarrow> nat" where
  "float_div_ceil N b =
     (if 2 ^ 52 * b \<le> N then
        (let e = shift_down N b 0 in round_half_even N (b * 2 ^ e) * 2 ^ e)
      else
        (let k = shift_up N b 0 in ceil_div (round_half_even (N * 2 ^ k) b) (2 ^ k)))"

text \<open>\<^verbatim>\<open>int(math.ceil(float(a) / b))\<close> for an integer \<open>a \<ge> 0\<close> and an integer \<open>b > 0\<close>.\<close>

definition py_ceil :: "nat \<Rightarrow> nat \<Rightarrow> nat option" where
  "py_ceil a b = map_option (\<lambda>N. float_div_ceil N b) (py_float a)"

text \<open>
  \<^verbatim>\<open>while len(X) < n: X += src\<close>. With an empty \<open>src\<close> the body changes nothing: once
  entered, the loop never ends, which is the value \<open>None\<close>.
\<close>

function repeat_until :: "nat \<Rightarrow> bytes \<Rightarrow> bytes \<Rightarrow> bytes option" where
  "repeat_until n src X =
     (if length X < n then (if src = [] then None else repeat_until n src (X @ src))
      else Some X)"
  by pat_completeness auto
termination
proof (relation "measure (\<lambda>(n, src, X). n - length X)")
  fix n :: nat and src X :: bytes
  assume "length X < n" and "src \<noteq> []"
  then have "n - length (X @ src) < n - length X"
    by (cases src) simp_all
  then show "((n, src, X @ src), (n, src, X)) \<in> measure (\<lambda>(n, src, X). n - length X)"
    by simp
qed simp

declare repeat_until.simps [simp del]

text \<open>
  Steps 2 and 3, the same statements over \<^verbatim>\<open>salt\<close> and over \<^verbatim>\<open>utf16_password\<close>: an
  empty source gives the empty block, any other is repeated and cut to the least
  multiple of \<open>v\<close> that holds it.
\<close>

definition stretch :: "nat \<Rightarrow> bytes \<Rightarrow> bytes option" where
  "stretch v src =
     (if src \<noteq> [] then
        (let s_len = v * ceil_div (length src) v in
         case repeat_until s_len src [] of
           None \<Rightarrow> None
         | Some S \<Rightarrow> Some (take s_len S))
      else Some [])"

text \<open>\<^verbatim>\<open>chr_cls(num)\<close>, that is \<^verbatim>\<open>bytes([num])\<close>, for the ids 1, 2 and 3.\<close>

definition chr_cls :: "int \<Rightarrow> bytes" where
  "chr_cls num = [word_of_int num]"

text \<open>\<^verbatim>\<open>utf16_password\<close>: the password re-encoded, with the two-byte terminator appended.\<close>

definition utf16_password :: "bytes \<Rightarrow> bytes option" where
  "utf16_password password =
     map_option (\<lambda>text. utf16be_encode text @ [0, 0]) (utf8_decode password)"

subsection \<open>The main loop\<close>

text \<open>The buffers the loop assigns to, and the number of digest calls made so far.\<close>

record kdf_state =
  I_buf :: bytes
  A_buf :: bytes
  calls :: nat

text \<open>
  Step 6A: one digest of \<open>D + I\<close>, then the loop over \<^verbatim>\<open>range(2, iterations + 1)\<close>.
\<close>

definition step6a :: "(bytes \<Rightarrow> bytes) \<Rightarrow> nat \<Rightarrow> bytes \<Rightarrow> bytes \<Rightarrow> nat \<Rightarrow> bytes \<times> nat" where
  "step6a algo iterations D I n =
     fold (\<lambda>_ (A2, k). (algo A2, Suc k)) [2..<iterations + 1] (algo (D @ I), Suc n)"

text \<open>
  Step 6C for the chunk \<open>j\<close>: the slice \<^verbatim>\<open>I[start:end]\<close> is read, \<open>B\<close> is added, the sum is
  written back through \<^verbatim>\<open>int_to_bytes\<close>, and only a result longer than \<open>v\<close> is cut.
\<close>

definition update_chunk :: "nat \<Rightarrow> nat \<Rightarrow> nat \<Rightarrow> bytes \<Rightarrow> bytes" where
  "update_chunk v B j I =
     (let start = j * v;
          end = (j + 1) * v;
          I_j = drop start (take end I);
          I_j = int_to_bytes (int_from_bytes I_j + B);
          I_j_l = length I_j;
          I_j = (if I_j_l > v then drop (I_j_l - v) I_j else I_j)
      in take start I @ I_j @ drop end I)"

text \<open>The loop over \<^verbatim>\<open>range(0, len(I) // v)\<close>; the range is fixed when the loop starts.\<close>

definition step6c :: "nat \<Rightarrow> nat \<Rightarrow> bytes \<Rightarrow> bytes" where
  "step6c v B I = fold (update_chunk v B) [0..<length I div v] I"

text \<open>Step 6B followed by step 6C: \<open>B\<close> is \<open>A2\<close> repeated, cut to \<open>v\<close> bytes, plus one.\<close>

definition step6bc :: "nat \<Rightarrow> bytes \<Rightarrow> bytes \<Rightarrow> bytes option" where
  "step6bc v A2 I =
     (case repeat_until v A2 [] of
        None \<Rightarrow> None
      | Some B \<Rightarrow> Some (step6c v (int_from_bytes (take v B) + 1) I))"

text \<open>Step 7: \<^verbatim>\<open>A = A[0:begin] + A2[0:to_copy] + A[begin+to_copy:]\<close>.\<close>

definition step7 :: "nat \<Rightarrow> nat \<Rightarrow> nat \<Rightarrow> bytes \<Rightarrow> bytes \<Rightarrow> bytes" where
  "step7 u key_length i A2 A =
     (let begin = (i - 1) * u;
          to_copy = min key_length u
      in take begin A @ take to_copy A2 @ drop (begin + to_copy) A)"

text \<open>The rest of the loop body once \<open>A2\<close> is known: steps 6B and 6C when \<open>i < c\<close>, then step 7.\<close>

definition finish_block ::
  "nat \<Rightarrow> nat \<Rightarrow> nat \<Rightarrow> nat \<Rightarrow> nat \<Rightarrow> kdf_state \<Rightarrow> bytes \<Rightarrow> nat \<Rightarrow> kdf_state option" where
  "finish_block u v key_length c i st A2 n =
     (case (if i < c then step6bc v A2 (I_buf st) else Some (I_buf st)) of
        None \<Rightarrow> None
      | Some I \<Rightarrow> Some \<lparr>I_buf = I, A_buf = step7 u key_length i A2 (A_buf st), calls = n\<rparr>)"

text \<open>The body of \<^verbatim>\<open>for i in range(1, c + 1)\<close>.\<close>

definition block ::
  "(bytes \<Rightarrow> bytes) \<Rightarrow> nat \<Rightarrow> nat \<Rightarrow> nat \<Rightarrow> nat \<Rightarrow> nat \<Rightarrow> bytes \<Rightarrow> nat \<Rightarrow> kdf_state
     \<Rightarrow> kdf_state option" where
  "block algo u v iterations key_length c D i st =
     (case step6a algo iterations D (I_buf st) (calls st) of
        (A2, n) \<Rightarrow> finish_block u v key_length c i st A2 n)"

text \<open>A \<^verbatim>\<open>for\<close> loop over a range whose body may never return.\<close>

fun for_range :: "(nat \<Rightarrow> 's \<Rightarrow> 's option) \<Rightarrow> nat list \<Rightarrow> 's \<Rightarrow> 's option" where
  "for_range body [] st = Some st"
| "for_range body (i # is) st =
     (case body i st of None \<Rightarrow> None | Some st' \<Rightarrow> for_range body is st')"

subsection \<open>The function\<close>

text \<open>
  Lines 74 to 154: everything after the argument checks. \<open>n\<close> is the number of digest
  calls made before the call; the result carries the number made when it ends. A call
  that never returns delivers no count, so \<open>Diverged\<close> is paired with \<open>n\<close>. The
  \<^verbatim>\<open>if\<close> of steps 2 and 3 is part of \<open>stretch\<close>; \<open>stretch\<close> itself always returns
  (lemma \<open>stretch_Some\<close>), the loop of step 6B only for a digest that is not empty.
  The id reaches the body as it was passed: line 94 builds \<open>D\<close> with \<^verbatim>\<open>bytes([id_])\<close>,
  which raises \<^verbatim>\<open>TypeError\<close> for an id that is not an integer. Line 116 converts
  \<^verbatim>\<open>key_length\<close> to \<^verbatim>\<open>float\<close>, which raises \<^verbatim>\<open>OverflowError\<close> beyond its range.
\<close>

definition kdf_body ::
  "(string \<Rightarrow> bytes \<Rightarrow> bytes) \<Rightarrow> string \<Rightarrow> bytes \<Rightarrow> bytes \<Rightarrow> nat \<Rightarrow> nat \<Rightarrow> pyval \<Rightarrow> nat
     \<Rightarrow> bytes outcome \<times> nat" where
  "kdf_body hashlib hash_algorithm password salt iterations key_length ident n =
     (case utf16_password password of
        None \<Rightarrow> (Raised UnicodeDecodeError, n)
      | Some utf16 \<Rightarrow>
     (case digest_size hash_algorithm of
        None \<Rightarrow> (Raised KeyError, n)
      | Some u \<Rightarrow>
     (case ident of
        PyInt i \<Rightarrow>
     (let algo = hashlib hash_algorithm;
          v = block_size hash_algorithm;
          D = concat (replicate v (chr_cls i))
      in
     (case stretch v salt of
        None \<Rightarrow> (Diverged, n)
      | Some S \<Rightarrow>
     (case stretch v utf16 of
        None \<Rightarrow> (Diverged, n)
      | Some P \<Rightarrow>
     (case py_ceil key_length u of
        None \<Rightarrow> (Raised OverflowError, n)
      | Some c \<Rightarrow>
     (let I = S @ P;
          A = replicate (c * u) 0
      in
      case for_range (block algo u v iterations key_length c D) [1..<c + 1]
             \<lparr>I_buf = I, A_buf = A, calls = n\<rparr> of
        None \<Rightarrow> (Diverged, n)
      | Some st \<Rightarrow> (Returned (take key_length (A_buf st)), calls st))))))
      | _ \<Rightarrow> (Raised (TypeError NotAnInteger), n))))"

text \<open>
  The two membership tests of lines 68 and 71. A value that cannot be hashed makes the
  test itself raise \<^verbatim>\<open>TypeError\<close>. Among the values that can be hashed, only a text equals
  one of the six names, and a number is in \<^verbatim>\<open>set([1, 2, 3])\<close> when it equals 1, 2 or 3,
  whether it is an integer or a float.
\<close>

definition hashable :: "pyval \<Rightarrow> bool" where
  "hashable x = (x \<noteq> PyList)"

definition in_ints :: "pyval \<Rightarrow> int list \<Rightarrow> bool" where
  "in_ints x ks =
     (case x of PyInt i \<Rightarrow> i \<in> set ks | PyFloat f \<Rightarrow> f \<in> set (map of_int ks) | _ \<Rightarrow> False)"

text \<open>
  \<^verbatim>\<open>pkcs12_kdf\<close>: the eight checks of lines 50 to 72 in their order, then the body.
  After the first membership test the algorithm is a text, so the last case of the
  innermost \<open>case\<close> cannot occur; the id is passed on as it is.
\<close>

definition pkcs12_kdf ::
  "(string \<Rightarrow> bytes \<Rightarrow> bytes) \<Rightarrow> pyval \<Rightarrow> pyval \<Rightarrow> pyval \<Rightarrow> pyval \<Rightarrow> pyval \<Rightarrow> pyval \<Rightarrow> nat
     \<Rightarrow> bytes outcome \<times> nat" where
  "pkcs12_kdf hashlib hash_algorithm password salt iterations key_length ident n =
     (case password of
        PyBytes pw \<Rightarrow>
     (case salt of
        PyBytes sl \<Rightarrow>
     (case iterations of
        PyInt it \<Rightarrow>
     (if it < 1 then (Raised (ValueError (IterationsTooSmall it)), n) else
     (case key_length of
        PyInt kl \<Rightarrow>
     (if kl < 1 then (Raised (ValueError (KeyLengthTooSmall kl)), n) else
     (if \<not> hashable hash_algorithm then (Raised (TypeError UnhashableType), n) else
     (if hash_algorithm \<notin> set (map PyStr supported)
      then (Raised (ValueError BadHashAlgorithm), n) else
     (if \<not> hashable ident then (Raised (TypeError UnhashableType), n) else
     (if \<not> in_ints ident [1, 2, 3]
      then (Raised (ValueError BadId), n) else
     (case hash_algorithm of
        PyStr name \<Rightarrow> kdf_body hashlib name pw sl (nat it) (nat kl) ident n
      | _ \<Rightarrow> (Raised (ValueError BadHashAlgorithm), n)))))))
      | _ \<Rightarrow> (Raised (ValueError KeyLengthNotInt), n)))
      | _ \<Rightarrow> (Raised (ValueError IterationsNotInt), n))
      | _ \<Rightarrow> (Raised (ValueError SaltNotBytes), n))
      | _ \<Rightarrow> (Raised (ValueError PasswordNotBytes), n))"

text \<open>The number of bytes of what a call returned, when it returned.\<close>

definition returned_length :: "bytes outcome \<Rightarrow> nat option" where
  "returned_length r = (case r of Returned out \<Rightarrow> Some (length out) | _ \<Rightarrow> None)"

subsection \<open>The digest provider\<close>

text \<open>
  What the source relies on from \<^verbatim>\<open>hashlib\<close>: the digest named by a key of the
  dictionary \<^verbatim>\<open>u\<close> has that many bytes.
\<close>

definition digest_provider :: "(string \<Rightarrow> bytes \<Rightarrow> bytes) \<Rightarrow> bool" where
  "digest_provider hashlib =
     (\<forall>name u m. digest_size name = Some u \<longrightarrow> length (hashlib name m) = u)"

text \<open>
  A provider that keeps this contract and can be evaluated: byte \<open>k\<close> of the digest of
  \<open>m\<close> is \<open>k\<close> plus the sum of the bytes of \<open>m\<close> plus its length. It stands in for
  \<^verbatim>\<open>hashlib\<close> where a theorem is applied to concrete arguments.
\<close>

definition sample_hashlib :: "string \<Rightarrow> bytes \<Rightarrow> bytes" where
  "sample_hashlib name m =
     map (\<lambda>k. of_nat k + sum_list m + of_nat (length m))
       [0..<(case digest_size name of Some u \<Rightarrow> u | None \<Rightarrow> 0)]"

subsection \<open>The checks as the specification lists them\<close>

text \<open>
  The specification's list of the validation checks, to compare with the checks of the
  source: password and salt are byte sequences, iterations and key length are integers
  of at least 1, the algorithm is one of the six names, the id is in \<open>{1, 2, 3}\<close>, as
  Python decides membership.
\<close>

definition checks_pass :: "pyval \<Rightarrow> pyval \<Rightarrow> pyval \<Rightarrow> pyval \<Rightarrow> pyval \<Rightarrow> pyval \<Rightarrow> bool" where
  "checks_pass hash_algorithm password salt iterations key_length ident =
     ((case password of PyBytes _ \<Rightarrow> True | _ \<Rightarrow> False)
      \<and> (case salt of PyBytes _ \<Rightarrow> True | _ \<Rightarrow> False)
      \<and> (case iterations of PyInt it \<Rightarrow> 1 \<le> it | _ \<Rightarrow> False)
      \<and> (case key_length of PyInt kl \<Rightarrow> 1 \<le> kl | _ \<Rightarrow> False)
      \<and> (case hash_algorithm of PyStr name \<Rightarrow> name \<in> set supported | _ \<Rightarrow> False)
      \<and> in_ints ident [1, 2, 3])"

subsection \<open>Recorded SHA-1 digests\<close>

text \<open>
  The call \<^verbatim>\<open>pkcs12_kdf('sha1', b'bg', b'', 1, 40, 1)\<close> computes two SHA-1 digests. The
  block \<open>P\<close> of the password \<^verbatim>\<open>bg\<close>, the digest of \<open>D + I\<close> in the first block and
  the digest of \<open>D + I\<close> in the second block, as \<^verbatim>\<open>hashlib.sha1\<close> returns them, are
  recorded here; \<open>recorded_hashlib\<close> answers these two messages with the recorded
  digests and every other message like \<open>sample_hashlib\<close>.
\<close>

definition P_bg :: bytes where
  "P_bg =
      [0x00, 0x62, 0x00, 0x67, 0x00, 0x00, 0x00, 0x62, 0x00, 0x67, 0x00, 0x00, 0x00, 0x62,
       0x00, 0x67, 0x00, 0x00, 0x00, 0x62, 0x00, 0x67, 0x00, 0x00, 0x00, 0x62, 0x00, 0x67,
       0x00, 0x00, 0x00, 0x62, 0x00, 0x67, 0x00, 0x00, 0x00, 0x62, 0x00, 0x67, 0x00, 0x00,
       0x00, 0x62, 0x00, 0x67, 0x00, 0x00, 0x00, 0x62, 0x00, 0x67, 0x00, 0x00, 0x00, 0x62,
       0x00, 0x67, 0x00, 0x00, 0x00, 0x62, 0x00, 0x67]"

definition I_bg :: bytes where
  "I_bg =
      [0x88, 0x65, 0x83, 0x1A, 0xFC, 0xAD, 0x35, 0x7C, 0x3F, 0xEA, 0x58, 0xB3, 0x1C, 0x38,
       0x40, 0x9B, 0x37, 0xDE, 0xC6, 0x00, 0x8D, 0x65, 0x1C, 0x1B, 0x5E, 0xAD, 0x3A, 0x7B,
       0xD8, 0xEA, 0xBA, 0xB3, 0x21, 0x37, 0xD9, 0x9B, 0x99, 0xDE, 0xCB, 0x00, 0x26, 0x65,
       0x7E, 0x1B, 0x63, 0xAC, 0xD3, 0x7C, 0x3A, 0xEA, 0xBF, 0xB2, 0xBA, 0x38, 0x3B, 0x9B,
       0x9E, 0xDE, 0x64, 0x00, 0x88, 0x65, 0x84]"

definition sha1_block1 :: bytes where
  "sha1_block1 =
      [0x00, 0x26, 0x65, 0x1C, 0x1A, 0xFC, 0xAC, 0xD3, 0x7B, 0xD8, 0xEA, 0x58, 0xB2, 0xBA,
       0x37, 0xD9, 0x9B, 0x37, 0xDE, 0x64]"

definition sha1_block2 :: bytes where
  "sha1_block2 =
      [0x83, 0x35, 0x28, 0x86, 0xDE, 0xA9, 0x83, 0xA8, 0x03, 0xB2, 0xC8, 0xC0, 0xF5, 0x1B,
       0xC5, 0xA9, 0x13, 0xD0, 0x5A, 0x15]"

definition recorded_hashlib :: "string \<Rightarrow> bytes \<Rightarrow> bytes" where
  "recorded_hashlib name m =
     (if name = ''sha1'' \<and> m = replicate 64 1 @ P_bg then sha1_block1
      else if name = ''sha1'' \<and> m = replicate 64 1 @ I_bg then sha1_block2
      else sample_hashlib name m)"

section \<open>Auxiliary facts\<close>

subsection \<open>The ceiling of a quotient\<close>

text \<open>The integer definition is the ceiling of the real quotient that the source computes.\<close>

lemma ceil_div_real: "0 < b \<Longrightarrow> ceil_div a b = nat \<lceil>real a / real b\<rceil>"
proof -
  assume b: "0 < b"
  have "\<lceil>real a / real b\<rceil> = \<lceil>(of_int (int a) :: real) / of_int (int b)\<rceil>" by simp
  also have "\<dots> = - (- int a div int b)" by (rule ceiling_divide_eq_div)
  also have "\<dots> = (if int a mod int b = 0 then int a div int b else int a div int b + 1)"
    using b by (simp add: zdiv_zminus1_eq_if)
  also have "\<dots> = int (ceil_div a b)"
  proof -
    have "int a mod int b = int (a mod b)" "int a div int b = int (a div b)"
      by (simp_all add: zmod_int zdiv_int)
    then show ?thesis by (simp add: ceil_div_def)
  qed
  finally show ?thesis by simp
qed

lemma ceil_div_ge: "0 < b \<Longrightarrow> a \<le> ceil_div a b * b"
proof (cases "a mod b = 0")
  case True
  then show ?thesis by (auto simp: ceil_div_def)
next
  case False
  assume "0 < b"
  then have "a < b + a div b * b" by (rule dividend_less_div_times)
  then show ?thesis using False by (simp add: ceil_div_def)
qed

subsection \<open>The ceiling computed with floats\<close>

text \<open>
  Below \<open>2 ^ 53\<close> the conversion to \<^verbatim>\<open>float\<close> is exact, and the rounded quotient has
  the ceiling of the exact one: the rounding moves the quotient by less than the distance
  \<open>1 / b\<close> that separates it from the next integer below.
\<close>

lemma round_half_even_bounds:
  assumes "0 < D"
  shows "2 * N \<le> 2 * (round_half_even N D * D) + D"
    and "2 * (round_half_even N D * D) \<le> 2 * N + D"
proof -
  define q r where "q = N div D" and "r = N mod D"
  have N: "N = q * D + r" by (simp add: q_def r_def)
  have r: "r < D" using assms by (simp add: r_def)
  have M: "round_half_even N D
             = (if 2 * r < D then q else if D < 2 * r then q + 1 else if even q then q else q + 1)"
    by (simp add: round_half_even_def q_def r_def Let_def)
  show "2 * N \<le> 2 * (round_half_even N D * D) + D"
    unfolding M using r by (auto simp: N algebra_simps)
  show "2 * (round_half_even N D * D) \<le> 2 * N + D"
    unfolding M using r by (auto simp: N algebra_simps)
qed

lemma round_half_even_dvd: "0 < D \<Longrightarrow> D dvd N \<Longrightarrow> round_half_even N D = N div D"
  by (simp add: round_half_even_def Let_def)

lemma ceil_div_eqI:
  assumes K: "0 < K" and l: "j * K < M" and u: "M \<le> (j + 1) * K"
  shows "ceil_div M K = j + 1"
proof (cases "M = (j + 1) * K")
  case True
  then show ?thesis using K by (simp add: ceil_div_def)
next
  case False
  then have "M < (j + 1) * K" using u by simp
  then have d: "M div K = j" using l by (intro div_nat_eqI) (simp_all add: mult.commute)
  have "M mod K \<noteq> 0"
  proof
    assume "M mod K = 0"
    then have "M = M div K * K" by auto
    then show False using l d by simp
  qed
  then show ?thesis using d by (simp add: ceil_div_def)
qed

lemma scaled_ceiling:
  assumes b: "0 < b" and K: "b < 2 * K"
  shows "ceil_div (round_half_even (a * K) b) K = ceil_div a b"
proof (cases "a mod b = 0")
  case True
  then have "b dvd a" by (simp add: mod_eq_0_iff_dvd)
  then obtain j where a: "a = j * b" by (auto simp: dvd_def mult.commute)
  have K0: "0 < K" using b K by simp
  have "b dvd a * K" by (simp add: a)
  then have "round_half_even (a * K) b = a * K div b" by (rule round_half_even_dvd [OF b])
  also have "\<dots> = j * K" using b by (simp add: a)
  finally show ?thesis using b K0 by (simp add: a ceil_div_def)
next
  case False
  define j f where "j = a div b" and "f = a mod b"
  have a: "a = j * b + f" by (simp add: j_def f_def)
  have f: "0 < f" "f < b" using False b by (simp_all add: f_def)
  have K0: "0 < K" using b K by simp
  let ?M = "round_half_even (a * K) b"
  note l = round_half_even_bounds(1) [OF b, of "a * K"]
  note u = round_half_even_bounds(2) [OF b, of "a * K"]
  have aK: "a * K = j * K * b + f * K" by (simp add: a algebra_simps)
  have lower: "j * K < ?M"
  proof (rule ccontr)
    assume "\<not> j * K < ?M"
    then have "?M \<le> j * K" by simp
    then have "?M * b \<le> j * K * b" by (rule mult_le_mono1)
    with l have "2 * (a * K) \<le> 2 * (j * K * b) + b" by linarith
    then have "2 * (f * K) \<le> b" unfolding aK by simp
    moreover have "K \<le> f * K" using f(1) by simp
    ultimately have "2 * K \<le> b" by linarith
    with K show False by simp
  qed
  have upper: "?M \<le> (j + 1) * K"
  proof (rule ccontr)
    assume "\<not> ?M \<le> (j + 1) * K"
    then have "(j + 1) * K + 1 \<le> ?M" by simp
    then have "((j + 1) * K + 1) * b \<le> ?M * b" by (rule mult_le_mono1)
    with u have "2 * (((j + 1) * K + 1) * b) \<le> 2 * (a * K) + b" by linarith
    then have "2 * (b * K) + b \<le> 2 * (f * K)" unfolding aK by (simp add: algebra_simps)
    moreover have "f * K \<le> b * K" using f(2) by simp
    ultimately show False using b by linarith
  qed
  have "ceil_div ?M K = j + 1" by (rule ceil_div_eqI [OF K0 lower upper])
  then show ?thesis using False by (simp add: ceil_div_def j_def)
qed

lemma shift_up_ge: "0 < N \<Longrightarrow> 2 ^ 52 * D \<le> N * 2 ^ shift_up N D k"
proof (induction N D k rule: shift_up.induct)
  case (1 N D k)
  show ?case
  proof (cases "2 ^ 52 * D \<le> N * 2 ^ k")
    case True
    then show ?thesis by (subst shift_up.simps) simp
  next
    case False
    then have "shift_up N D k = shift_up N D (k + 1)" using "1.prems"
      by (subst shift_up.simps) simp
    then show ?thesis using 1 False by simp
  qed
qed

lemma py_float_exact: "n < 2 ^ 53 \<Longrightarrow> py_float n = Some n"
proof -
  assume n: "n < 2 ^ 53"
  then have e: "shift_down n 1 0 = 0" by (subst shift_down.simps) simp
  have "(2 :: nat) ^ 53 < 2 ^ 1024" by (rule power_strict_increasing) simp_all
  then have "n < 2 ^ 1024" using n by (rule less_trans [rotated])
  then have big: "\<not> 2 ^ 1024 \<le> n" by simp
  have r: "round_half_even n (2 ^ 0) * 2 ^ 0 = n" by (simp add: round_half_even_def)
  show ?thesis unfolding py_float_def e Let_def r using big by simp
qed

lemma float_div_ceil_exact:
  assumes a: "a < 2 ^ 53" and b: "0 < b"
  shows "float_div_ceil a b = ceil_div a b"
proof (cases "2 ^ 52 * b \<le> a")
  case True
  have "b = 1"
  proof (rule ccontr)
    assume "b \<noteq> 1"
    then have "2 \<le> b" using b by simp
    then have "2 ^ 52 * 2 \<le> 2 ^ 52 * b" by (rule mult_le_mono2)
    then have "(2 :: nat) ^ 53 \<le> a" using True by simp
    with a show False by simp
  qed
  then have True1: "2 ^ 52 * 1 \<le> a" using True by simp
  have e: "shift_down a 1 0 = 0" using a by (subst shift_down.simps) simp
  have r: "round_half_even a (1 * 2 ^ 0) * 2 ^ 0 = a" by (simp add: round_half_even_def)
  have "float_div_ceil a 1 = a" unfolding float_div_ceil_def e Let_def r using True1 by simp
  then show ?thesis using \<open>b = 1\<close> by (simp add: ceil_div_def)
next
  case False
  show ?thesis
  proof (cases "a = 0")
    case True
    have k: "shift_up 0 b 0 = 0" by (subst shift_up.simps) simp
    have r: "round_half_even (0 * 2 ^ 0) b = 0" using b by (simp add: round_half_even_def)
    have "float_div_ceil 0 b = 0" unfolding float_div_ceil_def k Let_def r using b
      by (simp add: ceil_div_def)
    then show ?thesis using b True by (simp add: ceil_div_def)
  next
    case nz: False
    define k where "k = shift_up a b 0"
    have "2 ^ 52 * b \<le> a * 2 ^ k" unfolding k_def using nz by (intro shift_up_ge) simp
    also have "a * 2 ^ k < 2 ^ 53 * 2 ^ k" using a by simp
    finally have "2 ^ 52 * b < 2 ^ 52 * (2 * 2 ^ k)" by simp
    then have "b < 2 * 2 ^ k" by simp
    then have "ceil_div (round_half_even (a * 2 ^ k) b) (2 ^ k) = ceil_div a b"
      by (rule scaled_ceiling [OF b])
    then show ?thesis using False by (simp add: float_div_ceil_def Let_def k_def)
  qed
qed

lemma py_ceil_exact: "a < 2 ^ 53 \<Longrightarrow> 0 < b \<Longrightarrow> py_ceil a b = Some (ceil_div a b)"
  by (simp add: py_ceil_def py_float_exact float_div_ceil_exact)

lemma py_ceil_overflow: "2 ^ 1024 \<le> a \<Longrightarrow> py_ceil a b = None"
  by (simp add: py_ceil_def py_float_def)

subsection \<open>Repeating a source\<close>

lemma repeat_until_Some:
  "src \<noteq> [] \<Longrightarrow> \<exists>r. repeat_until n src X = Some r \<and> n \<le> length r"
proof (induction n src X rule: repeat_until.induct)
  case (1 n src X)
  show ?case
  proof (cases "length X < n")
    case True
    with 1 show ?thesis by (subst repeat_until.simps) simp
  next
    case False
    then show ?thesis by (subst repeat_until.simps) simp
  qed
qed

lemma stretch_Some:
  "\<exists>S. stretch v src = Some S \<and> length S = (if src = [] then 0 else v * ceil_div (length src) v)"
proof (cases "src = []")
  case True
  then show ?thesis by (simp add: stretch_def)
next
  case False
  obtain r where r: "repeat_until (v * ceil_div (length src) v) src [] = Some r"
    "v * ceil_div (length src) v \<le> length r"
    using repeat_until_Some [OF False] by blast
  then show ?thesis using False by (simp add: stretch_def Let_def)
qed

subsection \<open>Step 6A\<close>

lemma fold_digest:
  "fold (\<lambda>_ (A2, k). (algo A2, Suc k)) xs (a, k) = ((algo ^^ length xs) a, k + length xs)"
  by (induction xs arbitrary: a k) (simp_all add: funpow_swap1)

lemma step6a_eq:
  "1 \<le> iterations \<Longrightarrow>
   step6a algo iterations D I n = ((algo ^^ iterations) (D @ I), n + iterations)"
proof -
  assume "1 \<le> iterations"
  then obtain k where k: "iterations = Suc k" by (cases iterations) auto
  have len: "length [2..<iterations + 1] = k" unfolding k by (simp only: length_upt)
  show ?thesis
    unfolding step6a_def fold_digest len
    unfolding k by (simp add: funpow_swap1)
qed

lemma funpow_length:
  fixes algo :: "bytes \<Rightarrow> bytes"
  assumes "\<forall>m. length (algo m) = u" and "0 < k"
  shows "length ((algo ^^ k) x) = u"
proof -
  obtain j where "k = Suc j" using assms(2) by (cases k) auto
  then have "(algo ^^ k) x = algo ((algo ^^ j) x)" by simp
  then show ?thesis using assms(1) by simp
qed

lemma step6a_funpow:
  "step6a algo iterations D I n
     = ((algo ^^ Suc (length [2..<iterations + 1])) (D @ I), Suc (n + length [2..<iterations + 1]))"
  unfolding step6a_def fold_digest by (simp only: funpow_swap1 funpow.simps o_apply add_Suc)

lemma step6a_length:
  fixes algo :: "bytes \<Rightarrow> bytes"
  assumes "\<forall>m. length (algo m) = u"
  shows "length (fst (step6a algo iterations D I n)) = u"
  unfolding step6a_funpow fst_conv by (rule funpow_length [OF assms]) simp

subsection \<open>Step 7\<close>

lemma step7_length:
  assumes "length A = c * u" and "1 \<le> i" and "i \<le> c" and "length A2 = u"
  shows "length (step7 u key_length i A2 A) = c * u"
proof -
  have "(i - 1) * u + u \<le> c * u"
    using assms(2,3)
    by (metis Suc_pred' add.commute less_eq_Suc_le mult_Suc mult_le_mono1 One_nat_def)
  then show ?thesis using assms(1,4)
    by (simp add: step7_def Let_def min_def)
qed

lemma step7_take:
  assumes "k \<le> (i - 1) * u" and "k \<le> length A"
  shows "take k (step7 u key_length i A2 A) = take k A"
  using assms by (simp add: step7_def Let_def min_def)

subsection \<open>One block and the loop\<close>

lemma digest_size_ge: "digest_size name = Some u \<Longrightarrow> 16 \<le> u"
  by (auto simp: digest_size_def split: if_splits)

lemma step6bc_Some: "A2 \<noteq> [] \<Longrightarrow> \<exists>I'. step6bc v A2 I = Some I'"
  using repeat_until_Some [of A2 v "[]"] by (auto simp: step6bc_def)

lemma block_Some:
  fixes algo :: "bytes \<Rightarrow> bytes"
  assumes len: "\<forall>m. length (algo m) = u" and u: "0 < u"
  shows "\<exists>I'. block algo u v iterations key_length c D i st
           = Some \<lparr>I_buf = I',
                   A_buf = step7 u key_length i
                             (fst (step6a algo iterations D (I_buf st) (calls st))) (A_buf st),
                   calls = snd (step6a algo iterations D (I_buf st) (calls st))\<rparr>"
proof -
  obtain A2 n where s: "step6a algo iterations D (I_buf st) (calls st) = (A2, n)"
    by (cases "step6a algo iterations D (I_buf st) (calls st)")
  have "length (fst (step6a algo iterations D (I_buf st) (calls st))) = u"
    by (rule step6a_length [OF len])
  then have "length A2 = u" by (simp add: s)
  then have "A2 \<noteq> []" using u by auto
  then obtain I' where "step6bc v A2 (I_buf st) = Some I'" using step6bc_Some by blast
  then show ?thesis by (simp add: block_def s finish_block_def)
qed

lemma for_range_invariant:
  assumes "P st" and "\<And>i s. i \<in> set is \<Longrightarrow> P s \<Longrightarrow> \<exists>s'. body i s = Some s' \<and> P s'"
  shows "\<exists>st'. for_range body is st = Some st' \<and> P st'"
  using assms
proof (induction "is" arbitrary: st)
  case Nil
  then show ?case by simp
next
  case (Cons i "is")
  from Cons.prems obtain s' where s': "body i st = Some s'" "P s'" by fastforce
  have "\<exists>st'. for_range body is s' = Some st' \<and> P st'"
    by (rule Cons.IH [OF s'(2)]) (simp add: Cons.prems(2))
  then show ?case using s' by simp
qed

lemma block_length:
  fixes algo :: "bytes \<Rightarrow> bytes"
  assumes len: "\<forall>m. length (algo m) = u" and u: "0 < u"
    and A: "length (A_buf st) = c * u" and i: "1 \<le> i" "i \<le> c"
  shows "\<exists>st'. block algo u v iterations key_length c D i st = Some st'
           \<and> length (A_buf st') = c * u"
proof -
  let ?A2 = "fst (step6a algo iterations D (I_buf st) (calls st))"
  have "length ?A2 = u" by (rule step6a_length [OF len])
  then have "length (step7 u key_length i ?A2 (A_buf st)) = c * u"
    using A i by (intro step7_length)
  moreover obtain I' where "block algo u v iterations key_length c D i st
           = Some \<lparr>I_buf = I', A_buf = step7 u key_length i ?A2 (A_buf st),
                   calls = snd (step6a algo iterations D (I_buf st) (calls st))\<rparr>"
    using block_Some [OF len u] by blast
  ultimately show ?thesis by simp
qed

lemma loop_length:
  fixes algo :: "bytes \<Rightarrow> bytes"
  assumes len: "\<forall>m. length (algo m) = u" and u: "0 < u"
    and A: "length (A_buf st) = c * u" and j: "1 \<le> j" and k: "k \<le> c"
  shows "\<exists>st'. for_range (block algo u v iterations key_length c D) [j..<k + 1] st = Some st'
           \<and> length (A_buf st') = c * u"
proof (rule for_range_invariant [where P = "\<lambda>s. length (A_buf s) = c * u", OF A])
  fix i and s :: kdf_state
  assume "i \<in> set [j..<k + 1]" and "length (A_buf s) = c * u"
  then show "\<exists>s'. block algo u v iterations key_length c D i s = Some s'
               \<and> length (A_buf s') = c * u"
    using j k by (intro block_length [OF len u]) auto
qed

subsection \<open>The whole function on arguments that pass the checks\<close>

lemma sample_provider: "digest_provider sample_hashlib"
  by (simp add: digest_provider_def sample_hashlib_def)

lemma pkcs12_kdf_valid:
  assumes "name \<in> set supported" and "1 \<le> it" and "1 \<le> kl" and "i \<in> {1, 2, 3}"
  shows "pkcs12_kdf hashlib (PyStr name) (PyBytes pw) (PyBytes sl) (PyInt it) (PyInt kl) (PyInt i) n
           = kdf_body hashlib name pw sl (nat it) (nat kl) (PyInt i) n"
  using assms by (auto simp: pkcs12_kdf_def hashable_def in_ints_def)

lemma supported_digest_size: "name \<in> set supported \<Longrightarrow> \<exists>u. digest_size name = Some u"
  by (auto simp: supported_def digest_size_def)

lemma utf16_password_nonempty: "utf16_password pw = Some utf16 \<Longrightarrow> utf16 \<noteq> []"
  by (auto simp: utf16_password_def)

lemma kdf_body_unfold:
  assumes "digest_size name = Some u" and "utf16_password pw = Some utf16"
    and "stretch (block_size name) sl = Some S" and "stretch (block_size name) utf16 = Some P"
    and "py_ceil kl u = Some c"
  shows "kdf_body hashlib name pw sl it kl (PyInt i) n =
     (case for_range
             (block (hashlib name) u (block_size name) it kl c
                (concat (replicate (block_size name) (chr_cls i))))
             [1..<c + 1]
             \<lparr>I_buf = S @ P, A_buf = replicate (c * u) 0, calls = n\<rparr> of
        None \<Rightarrow> (Diverged, n)
      | Some st \<Rightarrow> (Returned (take kl (A_buf st)), calls st))"
  using assms by (simp add: kdf_body_def Let_def)

lemma kdf_body_returns:
  assumes prov: "digest_provider hashlib" and u: "digest_size name = Some u"
    and pw: "utf16_password pw = Some utf16" and c: "py_ceil kl u = Some c"
  shows "\<exists>out k. kdf_body hashlib name pw sl it kl (PyInt i) n = (Returned out, k)
           \<and> length out = min kl (c * u)"
proof -
  let ?v = "block_size name"
  have len: "\<forall>m. length (hashlib name m) = u"
    using prov u by (simp add: digest_provider_def)
  have u0: "0 < u" using digest_size_ge [OF u] by simp
  obtain S where S: "stretch ?v sl = Some S" using stretch_Some by blast
  obtain P where P: "stretch ?v utf16 = Some P" using stretch_Some by blast
  have "\<exists>st'. for_range
             (block (hashlib name) u ?v it kl c (concat (replicate ?v (chr_cls i))))
             [1..<c + 1]
             \<lparr>I_buf = S @ P, A_buf = replicate (c * u) 0, calls = n\<rparr> = Some st'
           \<and> length (A_buf st') = c * u"
    by (rule loop_length [OF len u0]) simp_all
  then obtain st where st: "for_range
             (block (hashlib name) u ?v it kl c (concat (replicate ?v (chr_cls i))))
             [1..<c + 1]
             \<lparr>I_buf = S @ P, A_buf = replicate (c * u) 0, calls = n\<rparr> = Some st"
    "length (A_buf st) = c * u"
    by blast
  show ?thesis
    unfolding kdf_body_unfold [OF u pw S P c] using st by (simp add: min_def)
qed

lemma kdf_body_returns_exact:
  assumes prov: "digest_provider hashlib" and u: "digest_size name = Some u"
    and pw: "utf16_password pw = Some utf16" and kl: "kl < 2 ^ 53"
  shows "\<exists>out k. kdf_body hashlib name pw sl it kl (PyInt i) n = (Returned out, k)
           \<and> length out = kl"
proof -
  have u0: "0 < u" using digest_size_ge [OF u] by simp
  have c: "py_ceil kl u = Some (ceil_div kl u)" by (rule py_ceil_exact [OF kl u0])
  have "kl \<le> ceil_div kl u * u" by (rule ceil_div_ge [OF u0])
  then show ?thesis using kdf_body_returns [OF prov u pw c, of sl it i n] by (simp add: min_def)
qed


lemma first_block_kept:
  fixes algo :: "bytes \<Rightarrow> bytes"
  assumes len: "\<forall>m. length (algo m) = u" and u: "0 < u" and c: "1 \<le> c"
    and kl: "u \<le> key_length"
  shows "\<exists>st'. for_range (block algo u v iterations key_length c D) [1..<c + 1]
                 \<lparr>I_buf = I, A_buf = replicate (c * u) 0, calls = n\<rparr> = Some st'
              \<and> length (A_buf st') = c * u
              \<and> take u (A_buf st') = fst (step6a algo iterations D I n)"
proof -
  let ?A2 = "fst (step6a algo iterations D I n)"
  let ?st0 = "\<lparr>I_buf = I, A_buf = replicate (c * u) 0, calls = n\<rparr>"
  let ?P = "\<lambda>s. length (A_buf s) = c * u \<and> take u (A_buf s) = ?A2"
  have A2: "length ?A2 = u" by (rule step6a_length [OF len])
  obtain I1 where b: "block algo u v iterations key_length c D 1 ?st0
      = Some \<lparr>I_buf = I1, A_buf = step7 u key_length 1 ?A2 (replicate (c * u) 0),
               calls = snd (step6a algo iterations D I n)\<rparr>"
    using block_Some [OF len u, of v iterations key_length c D 1 ?st0] by auto
  let ?st1 = "\<lparr>I_buf = I1, A_buf = step7 u key_length 1 ?A2 (replicate (c * u) 0),
               calls = snd (step6a algo iterations D I n)\<rparr>"
  have l1: "length (step7 u key_length 1 ?A2 (replicate (c * u) 0)) = c * u"
    using c A2 by (intro step7_length) simp_all
  have t1: "take u (step7 u key_length 1 ?A2 (replicate (c * u) 0)) = ?A2"
    using A2 kl by (simp add: step7_def Let_def min_def)
  have P1: "?P ?st1" using l1 t1 by simp
  have "\<exists>st'. for_range (block algo u v iterations key_length c D) [2..<c + 1] ?st1 = Some st'
              \<and> ?P st'"
  proof (rule for_range_invariant [where P = ?P, OF P1])
    fix i and s :: kdf_state
    assume "i \<in> set [2..<c + 1]" and s: "?P s"
    then have i: "2 \<le> i" "i \<le> c" by (simp_all only: set_upt atLeastLessThan_iff) simp_all
    obtain I' where b': "block algo u v iterations key_length c D i s
        = Some \<lparr>I_buf = I',
                 A_buf = step7 u key_length i
                           (fst (step6a algo iterations D (I_buf s) (calls s))) (A_buf s),
                 calls = snd (step6a algo iterations D (I_buf s) (calls s))\<rparr>"
      using block_Some [OF len u] by blast
    have "length (fst (step6a algo iterations D (I_buf s) (calls s))) = u"
      by (rule step6a_length [OF len])
    then have l: "length (step7 u key_length i
                    (fst (step6a algo iterations D (I_buf s) (calls s))) (A_buf s)) = c * u"
      using i s by (intro step7_length) auto
    have "1 \<le> i - 1" using i by simp
    then have "1 * u \<le> (i - 1) * u" by (rule mult_le_mono1)
    then have "u \<le> (i - 1) * u" by simp
    moreover have "u \<le> length (A_buf s)" using s c by simp
    ultimately have "take u (step7 u key_length i
                    (fst (step6a algo iterations D (I_buf s) (calls s))) (A_buf s))
                 = take u (A_buf s)"
      by (rule step7_take)
    then show "\<exists>s'. block algo u v iterations key_length c D i s = Some s' \<and> ?P s'"
      using b' l s by simp
  qed
  moreover have "[1..<c + 1] = 1 # [2..<c + 1]"
    using c upt_conv_Cons [of 1 "c + 1"] by (simp only: numeral_2_eq_2 One_nat_def)
  ultimately show ?thesis using b by simp
qed

lemma ceil_div_self: "0 < u \<Longrightarrow> ceil_div u u = 1"
  by (simp add: ceil_div_def)

lemma ceil_div_two_five: "5 < u \<Longrightarrow> ceil_div (u * 2 + 5) u = 3"
proof -
  assume u: "5 < u"
  have "(u * 2 + 5) mod u = 5" using u by simp
  moreover have "(u * 2 + 5) div u = 2" using u by simp
  ultimately show ?thesis by (simp add: ceil_div_def)
qed

lemma kdf_body_first_block:
  assumes prov: "digest_provider hashlib" and u: "digest_size name = Some u"
    and pw: "utf16_password pw = Some utf16"
    and S: "stretch (block_size name) sl = Some S" and P: "stretch (block_size name) utf16 = Some P"
    and c: "py_ceil kl u = Some c" and c1: "1 \<le> c" and kl: "u \<le> kl" and fit: "kl \<le> c * u"
  shows "\<exists>out k. kdf_body hashlib name pw sl it kl (PyInt i) n = (Returned out, k)
           \<and> length out = kl
           \<and> take u out = fst (step6a (hashlib name) it
                                  (concat (replicate (block_size name) (chr_cls i))) (S @ P) n)"
proof -
  let ?v = "block_size name"
  let ?D = "concat (replicate ?v (chr_cls i))"
  have len: "\<forall>m. length (hashlib name m) = u"
    using prov u by (simp add: digest_provider_def)
  have u0: "0 < u" using digest_size_ge [OF u] by simp
  obtain st where st: "for_range (block (hashlib name) u ?v it kl c ?D) [1..<c + 1]
             \<lparr>I_buf = S @ P, A_buf = replicate (c * u) 0, calls = n\<rparr> = Some st"
    "length (A_buf st) = c * u"
    "take u (A_buf st) = fst (step6a (hashlib name) it ?D (S @ P) n)"
    using first_block_kept [OF len u0 c1 kl] by blast
  show ?thesis
    unfolding kdf_body_unfold [OF u pw S P c] using st kl fit by (simp add: min_def)
qed

lemma digest_size_le: "digest_size name = Some u \<Longrightarrow> u \<le> 64"
  by (auto simp: digest_size_def split: if_splits)

lemma digest_size_supported: "digest_size name = Some u \<Longrightarrow> name \<in> set supported"
  by (auto simp: supported_def digest_size_def split: if_splits)

subsection \<open>The argument checks\<close>

lemma checks_fail_raise:
  "\<not> checks_pass ha pw sl it kl ident \<Longrightarrow>
   (\<exists>m. pkcs12_kdf hashlib ha pw sl it kl ident n = (Raised (ValueError m), n))
   \<or> pkcs12_kdf hashlib ha pw sl it kl ident n = (Raised (TypeError UnhashableType), n)"
  by (auto simp: checks_pass_def pkcs12_kdf_def split: pyval.splits)





lemma kdf_body_overflow:
  assumes "utf16_password pw = Some utf16" and "digest_size name = Some u"
    and "py_ceil kl u = None"
  shows "kdf_body hashlib name pw sl it kl (PyInt i) n = (Raised OverflowError, n)"
proof -
  obtain S where S: "stretch (block_size name) sl = Some S" using stretch_Some by blast
  obtain P where P: "stretch (block_size name) utf16 = Some P" using stretch_Some by blast
  show ?thesis using assms S P by (simp add: kdf_body_def Let_def)
qed


subsection \<open>The block of the empty password\<close>

lemma repeat_until_zeros:
  "set src \<subseteq> {0} \<Longrightarrow> set X \<subseteq> {0} \<Longrightarrow> repeat_until n src X = Some r \<Longrightarrow> set r \<subseteq> {0}"
proof (induction n src X rule: repeat_until.induct)
  case (1 n src X)
  show ?case
  proof (cases "length X < n \<and> src \<noteq> []")
    case True
    then have "repeat_until n src (X @ src) = Some r"
      using "1.prems"(3) by (subst (asm) repeat_until.simps) simp
    then show ?thesis using 1 True by auto
  next
    case False
    then show ?thesis using "1.prems" by (subst (asm) repeat_until.simps) (auto split: if_splits)
  qed
qed

lemma zeros_replicate: "set xs \<subseteq> {0 :: byte} \<Longrightarrow> xs = replicate (length xs) 0"
  by (induction xs) auto

lemma stretch_zeros:
  assumes "set src \<subseteq> {0}" and "stretch v src = Some S"
  shows "set S \<subseteq> {0}"
proof (cases "src = []")
  case True
  then show ?thesis using assms(2) by (simp add: stretch_def)
next
  case False
  then obtain r where r: "repeat_until (v * ceil_div (length src) v) src [] = Some r"
      and S: "S = take (v * ceil_div (length src) v) r"
    using assms(2) by (auto simp: stretch_def Let_def split: option.splits)
  have "set r \<subseteq> {0}" using repeat_until_zeros [OF assms(1) _ r] by simp
  then show ?thesis unfolding S by (auto dest: in_set_takeD)
qed

lemma stretch_terminator:
  assumes "2 \<le> v"
  shows "stretch v [0, 0] = Some (replicate v 0)"
proof -
  have c: "ceil_div (Suc (Suc 0)) v = 1"
    using assms by (cases "v = 2") (auto simp: ceil_div_def)
  obtain S where S: "stretch v [0, 0] = Some S"
      and len: "length S = (if [0, 0 :: byte] = [] then 0 else v * ceil_div (length [0, 0 :: byte]) v)"
    using stretch_Some by blast
  have "set S \<subseteq> {0}" by (rule stretch_zeros [OF _ S]) simp
  then have "S = replicate (length S) 0" by (rule zeros_replicate)
  moreover have "length S = v" using len c by simp
  ultimately show ?thesis using S by simp
qed

lemma block_size_ge: "2 \<le> block_size name"
  by (simp add: block_size_def)

subsection \<open>The call with the password bg, evaluated\<close>

lemma concat_replicate_single: "concat (replicate n [x]) = replicate n x"
  by (induction n) simp_all

lemma step6bc_bg: "step6bc 64 sha1_block1 P_bg = Some I_bg"
  by (simp add: step6bc_def step6c_def update_chunk_def Let_def repeat_until.simps
      int_from_bytes_def P_bg_def I_bg_def sha1_block1_def int_to_bytes.simps)

lemma lengths_bg: "length P_bg = 64" "length I_bg = 63" "length sha1_block1 = 20"
    "length sha1_block2 = 20"
  by (simp_all add: P_bg_def I_bg_def sha1_block1_def sha1_block2_def)

lemma recorded_bg:
  "recorded_hashlib ''sha1'' (replicate 64 1 @ P_bg) = sha1_block1"
  "recorded_hashlib ''sha1'' (replicate 64 1 @ I_bg) = sha1_block2"
proof -
  show "recorded_hashlib ''sha1'' (replicate 64 1 @ P_bg) = sha1_block1"
    by (simp add: recorded_hashlib_def)
  have "length I_bg \<noteq> length P_bg" by (simp add: lengths_bg)
  then have "I_bg \<noteq> P_bg" by auto
  then show "recorded_hashlib ''sha1'' (replicate 64 1 @ I_bg) = sha1_block2"
    by (simp add: recorded_hashlib_def)
qed

lemma block1_bg:
  "block (recorded_hashlib ''sha1'') 20 64 1 40 2 (replicate 64 1) 1
      \<lparr>I_buf = P_bg, A_buf = replicate 40 0, calls = 0\<rparr>
     = Some \<lparr>I_buf = I_bg, A_buf = sha1_block1 @ replicate 20 0, calls = 1\<rparr>"
  by (simp add: block_def step6a_def finish_block_def recorded_bg step6bc_bg step7_def
      lengths_bg)

lemma block2_bg:
  "block (recorded_hashlib ''sha1'') 20 64 1 40 2 (replicate 64 1) 2
      \<lparr>I_buf = I_bg, A_buf = sha1_block1 @ replicate 20 0, calls = 1\<rparr>
     = Some \<lparr>I_buf = I_bg, A_buf = sha1_block1 @ sha1_block2, calls = 2\<rparr>"
  by (simp add: block_def step6a_def finish_block_def recorded_bg step7_def lengths_bg)

lemma stretch_bg:
  "utf16_password [0x62, 0x67] = Some [0, 0x62, 0, 0x67, 0, 0]"
  "stretch 64 [0, 0x62, 0, 0x67, 0, 0] = Some P_bg"
  by (simp_all add: utf16_password_def utf16be_unit_def stretch_def ceil_div_def
      repeat_until.simps P_bg_def)

subsection \<open>Big-endian integers\<close>

lemma int_from_bytes_snoc: "int_from_bytes (xs @ [b]) = int_from_bytes xs * 256 + unat b"
  by (simp add: int_from_bytes_def)

lemma int_from_bytes_append:
  "int_from_bytes (xs @ ys) = int_from_bytes xs * 256 ^ length ys + int_from_bytes ys"
proof (induction ys rule: rev_induct)
  case Nil
  then show ?case by (simp add: int_from_bytes_def)
next
  case (snoc b ys)
  have "int_from_bytes (xs @ ys @ [b]) = int_from_bytes ((xs @ ys) @ [b])" by simp
  also have "\<dots> = int_from_bytes (xs @ ys) * 256 + unat b" by (rule int_from_bytes_snoc)
  finally show ?case by (simp add: snoc.IH int_from_bytes_snoc algebra_simps)
qed

lemma int_from_bytes_less: "int_from_bytes xs < 256 ^ length xs"
proof (induction xs rule: rev_induct)
  case Nil
  then show ?case by (simp add: int_from_bytes_def)
next
  case (snoc b xs)
  have "unat b < 2 ^ LENGTH(8)" by (rule unsigned_less)
  then have "unat b < 256" by simp
  moreover have "int_from_bytes xs + 1 \<le> 256 ^ length xs" using snoc by simp
  then have "(int_from_bytes xs + 1) * 256 \<le> 256 ^ length xs * 256" by (rule mult_le_mono1)
  ultimately show ?case by (simp add: int_from_bytes_snoc)
qed

lemma int_from_to_bytes: "int_from_bytes (int_to_bytes n) = n"
proof (induction n rule: int_to_bytes.induct)
  case (1 n)
  show ?case
  proof (cases "n = 0")
    case True
    then show ?thesis by (simp add: int_to_bytes.simps int_from_bytes_def)
  next
    case False
    have "unat (of_nat (n mod 256) :: byte) = n mod 256" by (simp add: unat_of_nat)
    then show ?thesis
      using False 1 by (subst int_to_bytes.simps) (simp add: int_from_bytes_snoc)
  qed
qed

lemma int_to_bytes_length: "length (int_to_bytes n) \<le> k \<longleftrightarrow> n < 256 ^ k"
proof (induction n arbitrary: k rule: int_to_bytes.induct)
  case (1 n)
  show ?case
  proof (cases "n = 0")
    case True
    then show ?thesis by (simp add: int_to_bytes.simps)
  next
    case False
    have len: "length (int_to_bytes n) = Suc (length (int_to_bytes (n div 256)))"
      using False by (subst int_to_bytes.simps) simp
    show ?thesis
    proof (cases k)
      case 0
      then show ?thesis using False len by simp
    next
      case (Suc j)
      have "n < 256 ^ Suc j \<longleftrightarrow> n div 256 < 256 ^ j"
        by (simp add: less_mult_imp_div_less div_less_iff_less_mult mult.commute)
      then show ?thesis using "1.IH" [OF False, of j] len Suc by simp
    qed
  qed
qed

subsection \<open>The chunk that step 6C writes back\<close>

text \<open>
  The value written back is the sum modulo \<open>256 ^ v\<close>, so the addition is the modular
  one. Its length is at most \<open>v\<close>, and it is \<open>v\<close> exactly when the sum is at least
  \<open>256 ^ (v - 1)\<close>: a chunk keeps its length unless the sum has a leading zero byte.
\<close>

lemma written_chunk:
  fixes s v :: nat
  defines "w \<equiv> (let I_j = int_to_bytes s; I_j_l = length I_j
                 in if I_j_l > v then drop (I_j_l - v) I_j else I_j)"
  shows "int_from_bytes w = s mod 256 ^ v"
    and "length w \<le> v"
    and "0 < v \<Longrightarrow> length w = v \<longleftrightarrow> 256 ^ (v - 1) \<le> s"
proof -
  let ?xs = "int_to_bytes s"
  show m: "int_from_bytes w = s mod 256 ^ v"
  proof (cases "length ?xs > v")
    case True
    then have w: "w = drop (length ?xs - v) ?xs" by (simp add: w_def Let_def)
    then have lw: "length w = v" using True by simp
    have "s = int_from_bytes (take (length ?xs - v) ?xs @ w)"
      unfolding w by (simp add: int_from_to_bytes)
    then have "s = int_from_bytes (take (length ?xs - v) ?xs) * 256 ^ v + int_from_bytes w"
      by (simp add: int_from_bytes_append lw)
    moreover have "int_from_bytes w < 256 ^ v" using int_from_bytes_less [of w] lw by simp
    ultimately show ?thesis by (metis mod_less mod_mult_self3)
  next
    case False
    then have w: "w = ?xs" by (simp add: w_def Let_def)
    have "s < 256 ^ v" using False int_to_bytes_length [of s v] by simp
    then show ?thesis by (simp add: w int_from_to_bytes)
  qed
  show l: "length w \<le> v" by (simp add: w_def Let_def)
  show "length w = v \<longleftrightarrow> 256 ^ (v - 1) \<le> s" if v: "0 < v"
  proof (cases "length ?xs > v")
    case True
    then have "length w = v" by (simp add: w_def Let_def)
    moreover have "\<not> length ?xs \<le> v - 1" using True by simp
    then have "\<not> s < 256 ^ (v - 1)"
      using int_to_bytes_length [of s "v - 1"] by simp
    ultimately show ?thesis by simp
  next
    case False
    then have w: "w = ?xs" by (simp add: w_def Let_def)
    have "length ?xs = v \<longleftrightarrow> \<not> length ?xs \<le> v - 1" using False v by arith
    also have "\<dots> \<longleftrightarrow> \<not> s < 256 ^ (v - 1)" by (simp only: int_to_bytes_length)
    finally show ?thesis unfolding w by (simp only: not_less)
  qed
qed

lemma update_chunk_length:
  assumes "(j + 1) * v \<le> length I" and "0 < v"
  shows "length (update_chunk v B j I) \<le> length I"
    and "length (update_chunk v B j I) = length I
           \<longleftrightarrow> 256 ^ (v - 1) \<le> int_from_bytes (drop (j * v) (take ((j + 1) * v) I)) + B"
proof -
  let ?s = "int_from_bytes (drop (j * v) (take ((j + 1) * v) I)) + B"
  let ?w = "(let I_j = int_to_bytes ?s; I_j_l = length I_j
             in if I_j_l > v then drop (I_j_l - v) I_j else I_j)"
  have e: "j * v + v \<le> length I" using assms(1) by (simp add: algebra_simps)
  have "update_chunk v B j I = take (j * v) I @ ?w @ drop ((j + 1) * v) I"
    by (simp add: update_chunk_def Let_def)
  then have "length (update_chunk v B j I)
               = length (take (j * v) I) + length ?w + length (drop ((j + 1) * v) I)"
    by (simp only: length_append add.assoc)
  also have "length (take (j * v) I) = j * v" using e by simp
  also have "length (drop ((j + 1) * v) I) = length I - (j * v + v)" by (simp add: algebra_simps)
  finally have len: "length (update_chunk v B j I) = length I - v + length ?w"
    using e by simp
  have vI: "v \<le> length I" using e by simp
  show "length (update_chunk v B j I) \<le> length I"
    using written_chunk(2) [of ?s v] len vI by simp
  show "length (update_chunk v B j I) = length I \<longleftrightarrow> 256 ^ (v - 1) \<le> ?s"
    using written_chunk(3) [OF assms(2), of ?s] len vI by auto
qed

section \<open>Digest parameters\<close>

text \<open>
  C8. The digest parameters are fixed by the algorithm name: \<open>u\<close> is 16, 20, 28, 32, 48
  and 64 bytes for md5, sha1, sha224, sha256, sha384 and sha512, and \<open>v\<close> is 128 bytes
  for sha384 and sha512 and 64 bytes for the four others.
\<close>

theorem digest_parameters:
  "map digest_size supported = [Some 16, Some 20, Some 28, Some 32, Some 48, Some 64]
   \<and> map block_size supported = [64, 64, 64, 64, 128, 128]"
  by (simp add: digest_size_def supported_def block_size_def)

section \<open>The length of the derived key\<close>

text \<open>
  C5 as stated gives the returned byte string exactly \<open>key_length\<close> bytes for every
  valid \<open>key_length\<close>. Line 116 computes the number of blocks with \<^verbatim>\<open>float\<close>
  arithmetic. For md5 and \<open>key_length = 2 ^ 53 + 1\<close> the conversion rounds to
  \<open>2 ^ 53\<close>, so \<open>c\<close> is \<open>2 ^ 49\<close> and the accumulator has \<open>2 ^ 53\<close> bytes: the slice of
  line 154 returns one byte fewer than asked for. For \<open>key_length = 10 ^ 400\<close> the
  conversion raises \<^verbatim>\<open>OverflowError\<close> and nothing is returned.
\<close>

theorem key_length_beyond_float_counterexample:
  "returned_length (fst (pkcs12_kdf sample_hashlib (PyStr ''md5'') (PyBytes [0x61]) (PyBytes [])
                           (PyInt 1) (PyInt (2 ^ 53 + 1)) (PyInt 1) 0)) = Some (2 ^ 53)
   \<and> pkcs12_kdf sample_hashlib (PyStr ''md5'') (PyBytes [0x61]) (PyBytes []) (PyInt 1)
       (PyInt (10 ^ 400)) (PyInt 1) 0 = (Raised OverflowError, 0)"
proof -
  have u: "digest_size ''md5'' = Some 16" by (simp add: digest_size_def)
  have pw: "utf16_password [0x61] = Some [0, 0x61, 0, 0]"
    by (simp add: utf16_password_def utf16be_unit_def)
  have name: "''md5'' \<in> set supported" by (simp add: supported_def)
  have ok: "(1 :: int) \<le> 1" "(1 :: int) \<in> {1, 2, 3}" by simp_all
  have c: "py_ceil (2 ^ 53 + 1) 16 = Some (2 ^ 49)"
    by (simp add: py_ceil_def py_float_def float_div_ceil_def shift_down.simps shift_up.simps
        round_half_even_def ceil_div_def Let_def)
  have k1: "(1 :: int) \<le> 2 ^ 53 + 1" and n1: "nat (2 ^ 53 + 1) = 2 ^ 53 + 1" by simp_all
  obtain out k where
    "kdf_body sample_hashlib ''md5'' [0x61] [] (nat 1) (2 ^ 53 + 1) (PyInt 1) 0 = (Returned out, k)"
    "length out = min (2 ^ 53 + 1) (2 ^ 49 * 16)"
    using kdf_body_returns [OF sample_provider u pw c] by blast
  then have 1: "returned_length (fst (pkcs12_kdf sample_hashlib (PyStr ''md5'') (PyBytes [0x61])
                   (PyBytes []) (PyInt 1) (PyInt (2 ^ 53 + 1)) (PyInt 1) 0)) = Some (2 ^ 53)"
    unfolding pkcs12_kdf_valid [OF name ok(1) k1 ok(2)] n1 by (simp add: returned_length_def)
  have "(2 :: nat) ^ 1024 \<le> 10 ^ 400" by simp
  then have "py_ceil (10 ^ 400) 16 = None" by (rule py_ceil_overflow)
  then have "kdf_body sample_hashlib ''md5'' [0x61] [] (nat 1) (10 ^ 400) (PyInt 1) 0
               = (Raised OverflowError, 0)"
    by (rule kdf_body_overflow [OF pw u])
  moreover have "(1 :: int) \<le> 10 ^ 400" and "nat (10 ^ 400) = 10 ^ 400" by simp_all
  ultimately have 2: "pkcs12_kdf sample_hashlib (PyStr ''md5'') (PyBytes [0x61]) (PyBytes [])
       (PyInt 1) (PyInt (10 ^ 400)) (PyInt 1) 0 = (Raised OverflowError, 0)"
    using pkcs12_kdf_valid [OF name ok(1) _ ok(2), of "10 ^ 400" sample_hashlib "[0x61]" "[]" 0]
    by simp
  from 1 2 show ?thesis by simp
qed

text \<open>
  C5, amended. For every valid input with \<open>key_length\<close> below \<open>2 ^ 53\<close> the byte string
  that \<^verbatim>\<open>pkcs12_kdf\<close> returns has exactly \<open>key_length\<close> bytes, whether or not
  \<open>key_length\<close> is a multiple of the digest size: with a digest provider that keeps its
  contract, a call whose arguments pass the checks and whose password decodes returns, and
  whatever such a call returns has \<open>key_length\<close> bytes.
\<close>

theorem derived_key_length:
  assumes "digest_provider hashlib" and "name \<in> set supported"
    and "1 \<le> iterations" and "1 \<le> key_length" and "ident \<in> {1, 2, 3}"
    and "key_length < 2 ^ 53"
  shows "(utf8_decode password \<noteq> None \<longrightarrow>
            (\<exists>out k. pkcs12_kdf hashlib (PyStr name) (PyBytes password) (PyBytes salt)
                        (PyInt iterations) (PyInt key_length) (PyInt ident) n = (Returned out, k)
                      \<and> int (length out) = key_length))
       \<and> (\<forall>out k. pkcs12_kdf hashlib (PyStr name) (PyBytes password) (PyBytes salt)
                        (PyInt iterations) (PyInt key_length) (PyInt ident) n = (Returned out, k)
                    \<longrightarrow> int (length out) = key_length)"
proof (cases "utf16_password password")
  case None
  then have "kdf_body hashlib name password salt (nat iterations) (nat key_length) (PyInt ident) n
               = (Raised UnicodeDecodeError, n)"
    by (simp add: kdf_body_def)
  moreover have "utf8_decode password = None" using None by (simp add: utf16_password_def)
  ultimately show ?thesis by (simp add: pkcs12_kdf_valid [OF assms(2-5)])
next
  case (Some utf16)
  obtain u where u: "digest_size name = Some u"
    using supported_digest_size [OF assms(2)] by blast
  have "nat key_length < 2 ^ 53" using assms(4,6) by simp
  then obtain out k where
    "kdf_body hashlib name password salt (nat iterations) (nat key_length) (PyInt ident) n
       = (Returned out, k)" "length out = nat key_length"
    using kdf_body_returns_exact [OF assms(1) u Some] by blast
  then show ?thesis using assms(4) by (simp add: pkcs12_kdf_valid [OF assms(2-5)])
qed

text \<open>The theorem at md5, the password \<^verbatim>\<open>ab\<close>, no salt, one iteration and 37 bytes.\<close>

theorem derived_key_length_witness:
  "\<exists>out k. pkcs12_kdf sample_hashlib (PyStr ''md5'') (PyBytes [0x61, 0x62]) (PyBytes [])
              (PyInt 1) (PyInt 37) (PyInt 1) 0 = (Returned out, k)
           \<and> int (length out) = 37"
  using derived_key_length [of sample_hashlib "''md5''" 1 37 1 "[0x61, 0x62]" "[]" 0]
  by (simp add: sample_provider supported_def)

section \<open>The output accumulator\<close>



section \<open>The digest applications of a block\<close>

text \<open>
  C6. For every output block \<open>i\<close> the value \<open>A2\<close> is produced by exactly
  \<open>iterations\<close> applications of the selected digest, starting from \<open>D\<close> followed by
  the current \<open>I\<close>: the body of the main loop, at any \<open>i\<close> and in any state, is the rest
  of the block run on the \<open>iterations\<close>-fold digest of \<open>D @ I\<close> with \<open>iterations\<close> more
  digest calls counted, and that value is one digest of \<open>D @ I\<close> followed by
  \<open>iterations - 1\<close> digests of the result.
\<close>

theorem block_digest_applications:
  assumes "1 \<le> iterations"
  shows "block algo u v iterations key_length c D i st
           = finish_block u v key_length c i st
               ((algo ^^ iterations) (D @ I_buf st)) (calls st + iterations)
         \<and> (algo ^^ iterations) (D @ I_buf st)
           = (algo ^^ (iterations - 1)) (algo (D @ I_buf st))"
proof -
  obtain k where k: "iterations = Suc k" using assms by (cases iterations) auto
  have "(algo ^^ iterations) (D @ I_buf st) = (algo ^^ (iterations - 1)) (algo (D @ I_buf st))"
    unfolding k by (simp add: funpow_swap1)
  then show ?thesis by (simp add: block_def step6a_eq [OF assms])
qed

text \<open>The theorem at three iterations, for the first of three md5 blocks.\<close>

theorem block_digest_applications_witness:
  "block (sample_hashlib ''md5'') 16 64 3 37 3 (replicate 64 1) 1
      \<lparr>I_buf = replicate 64 0, A_buf = replicate 48 0, calls = 0\<rparr>
     = finish_block 16 64 37 3 1 \<lparr>I_buf = replicate 64 0, A_buf = replicate 48 0, calls = 0\<rparr>
         ((sample_hashlib ''md5'' ^^ 3)
            (replicate 64 1 @ I_buf \<lparr>I_buf = replicate 64 0, A_buf = replicate 48 0, calls = 0\<rparr>))
         (calls \<lparr>I_buf = replicate 64 0, A_buf = replicate 48 0, calls = 0\<rparr> + 3)"
proof -
  have "(1 :: nat) \<le> 3" by simp
  from block_digest_applications [OF this] show ?thesis by blast
qed

section \<open>Earlier blocks and the requested length\<close>

text \<open>
  C7. For fixed algorithm, password, salt, iterations and id, the output for
  \<open>key_length = u\<close> and the output for \<open>key_length = u * 2 + 5\<close> agree on their first
  \<open>u\<close> bytes: with a digest provider that keeps its contract both calls return and the
  first \<open>u\<close> bytes of the longer key are the shorter key; the only other case is a
  password that does not decode, where both calls raise the same error.
\<close>

theorem first_block_independent_of_key_length:
  assumes prov: "digest_provider hashlib" and u: "digest_size name = Some u"
    and it: "1 \<le> iterations" and ident: "ident \<in> {1, 2, 3}"
  shows "(\<exists>out1 out2 k1 k2.
            pkcs12_kdf hashlib (PyStr name) (PyBytes password) (PyBytes salt)
              (PyInt iterations) (PyInt (int u)) (PyInt ident) n = (Returned out1, k1)
          \<and> pkcs12_kdf hashlib (PyStr name) (PyBytes password) (PyBytes salt)
              (PyInt iterations) (PyInt (int (u * 2 + 5))) (PyInt ident) n = (Returned out2, k2)
          \<and> length out1 = u \<and> length out2 = u * 2 + 5 \<and> take u out2 = out1)
       \<or> (utf8_decode password = None
          \<and> pkcs12_kdf hashlib (PyStr name) (PyBytes password) (PyBytes salt)
              (PyInt iterations) (PyInt (int u)) (PyInt ident) n = (Raised UnicodeDecodeError, n)
          \<and> pkcs12_kdf hashlib (PyStr name) (PyBytes password) (PyBytes salt)
              (PyInt iterations) (PyInt (int (u * 2 + 5))) (PyInt ident) n
              = (Raised UnicodeDecodeError, n))"
proof -
  have name: "name \<in> set supported" by (rule digest_size_supported [OF u])
  have u16: "16 \<le> u" by (rule digest_size_ge [OF u])
  have k1: "1 \<le> int u" and k2: "1 \<le> int (u * 2 + 5)" using u16 by simp_all
  note run1 = pkcs12_kdf_valid [OF name it k1 ident, of hashlib password salt n]
  note run2 = pkcs12_kdf_valid [OF name it k2 ident, of hashlib password salt n]
  show ?thesis
  proof (cases "utf16_password password")
    case None
    then have "utf8_decode password = None" by (simp add: utf16_password_def)
    moreover have "\<And>kl. kdf_body hashlib name password salt (nat iterations) kl (PyInt ident) n
               = (Raised UnicodeDecodeError, n)"
      using None by (simp add: kdf_body_def)
    ultimately show ?thesis unfolding run1 run2 by simp
  next
    case (Some utf16)
    obtain S where S: "stretch (block_size name) salt = Some S" using stretch_Some by blast
    obtain P where P: "stretch (block_size name) utf16 = Some P" using stretch_Some by blast
    let ?A2 = "fst (step6a (hashlib name) (nat iterations)
                 (concat (replicate (block_size name) (chr_cls ident))) (S @ P) n)"
    have u0: "0 < u" using u16 by simp
    have "u \<le> 64" by (rule digest_size_le [OF u])
    then have small: "u < 2 ^ 53" "u * 2 + 5 < 2 ^ 53" by simp_all
    have c1: "py_ceil u u = Some 1"
      using py_ceil_exact [OF small(1) u0] u0 by (simp add: ceil_div_self)
    have c2: "py_ceil (u * 2 + 5) u = Some 3"
      using py_ceil_exact [OF small(2) u0] u16 by (simp add: ceil_div_two_five)
    have l1: "u \<le> u" and l2: "u \<le> u * 2 + 5" by simp_all
    have f1: "u \<le> 1 * u" and f2: "u * 2 + 5 \<le> 3 * u" using u16 by simp_all
    have one: "(1 :: nat) \<le> 1" and three: "(1 :: nat) \<le> 3" by simp_all
    obtain out1 j1 where o1:
      "kdf_body hashlib name password salt (nat iterations) u (PyInt ident) n = (Returned out1, j1)"
      "length out1 = u" "take u out1 = ?A2"
      using kdf_body_first_block [OF prov u Some S P c1 one l1 f1] by blast
    obtain out2 j2 where o2:
      "kdf_body hashlib name password salt (nat iterations) (u * 2 + 5) (PyInt ident) n
         = (Returned out2, j2)"
      "length out2 = u * 2 + 5" "take u out2 = ?A2"
      using kdf_body_first_block [OF prov u Some S P c2 three l2 f2] by blast
    have "take u out2 = out1" using o1(2,3) o2(3) by simp
    then show ?thesis unfolding run1 run2 using o1 o2 by (simp add: nat_add_distrib nat_mult_distrib)
  qed
qed

text \<open>The theorem at md5 (\<open>u = 16\<close>), two iterations, the password \<^verbatim>\<open>ab\<close> and a one-byte salt.\<close>

theorem first_block_independent_of_key_length_witness:
  "\<exists>out1 out2 k1 k2.
      pkcs12_kdf sample_hashlib (PyStr ''md5'') (PyBytes [0x61, 0x62]) (PyBytes [7])
        (PyInt 2) (PyInt (int 16)) (PyInt 1) 0 = (Returned out1, k1)
    \<and> pkcs12_kdf sample_hashlib (PyStr ''md5'') (PyBytes [0x61, 0x62]) (PyBytes [7])
        (PyInt 2) (PyInt (int (16 * 2 + 5))) (PyInt 1) 0 = (Returned out2, k2)
    \<and> length out1 = 16 \<and> length out2 = 16 * 2 + 5 \<and> take 16 out2 = out1"
proof -
  have 1: "digest_size ''md5'' = Some 16" by (simp add: digest_size_def)
  have 2: "(1 :: int) \<le> 2" and 3: "(1 :: int) \<in> {1, 2, 3}" by simp_all
  have 4: "utf8_decode [0x61, 0x62] \<noteq> None" by simp
  show ?thesis
    using first_block_independent_of_key_length [OF sample_provider 1 2 3, of "[0x61, 0x62]" "[7]" 0] 4
    by blast
qed

section \<open>Rejected arguments\<close>

text \<open>
  C3 as stated asks for a type-error-class failure when the password or the salt is not a
  byte sequence, and gives every other invalid argument an error of its own. The source
  raises \<^verbatim>\<open>ValueError\<close> for a password that is not a byte string, as each of its checks
  does: at a text password the call raises \<^verbatim>\<open>ValueError\<close> with the password message and
  no \<^verbatim>\<open>TypeError\<close>. And the checks run in order: a text password together with zero
  iterations raises the error of the password, not that of the iterations.
\<close>

theorem non_bytes_password_counterexample:
  "pkcs12_kdf sample_hashlib (PyStr ''sha1'') (PyStr ''secret'') (PyBytes [])
     (PyInt 1) (PyInt 16) (PyInt 1) 0 = (Raised (ValueError PasswordNotBytes), 0)
   \<and> fst (pkcs12_kdf sample_hashlib (PyStr ''sha1'') (PyStr ''secret'') (PyBytes [])
            (PyInt 1) (PyInt 16) (PyInt 1) 0) \<noteq> Raised (TypeError UnhashableType)
   \<and> fst (pkcs12_kdf sample_hashlib (PyStr ''sha1'') (PyStr ''secret'') (PyBytes [])
            (PyInt 1) (PyInt 16) (PyInt 1) 0) \<noteq> Raised (TypeError NotAnInteger)
   \<and> pkcs12_kdf sample_hashlib (PyStr ''sha1'') (PyStr ''secret'') (PyBytes [])
       (PyInt 0) (PyInt 16) (PyInt 1) 0 = (Raised (ValueError PasswordNotBytes), 0)
   \<and> fst (pkcs12_kdf sample_hashlib (PyStr ''sha1'') (PyStr ''secret'') (PyBytes [])
            (PyInt 0) (PyInt 16) (PyInt 1) 0) \<noteq> Raised (ValueError (IterationsTooSmall 0))"
  by (simp add: pkcs12_kdf_def)

text \<open>
  C3, amended. A password or a salt that is not a byte string is rejected with a
  \<^verbatim>\<open>ValueError\<close>. Iterations or a key length that is not an integer or is below 1, an
  algorithm that is not one of the six names and an id that is not in \<open>{1, 2, 3}\<close> each
  fail with an error of their own: a \<^verbatim>\<open>ValueError\<close> with its own message or, for an
  algorithm or an id that cannot be hashed, the \<^verbatim>\<open>TypeError\<close> of the membership test.
  Each of these holds when the checks before it pass; the order is password, salt,
  iterations, key length, algorithm, id. In every such case the call ends in the check,
  before the body, and no digest is computed: the count of digest calls is unchanged.
\<close>

theorem invalid_arguments_rejected:
  "(\<not> checks_pass hash_algorithm password salt iterations key_length ident \<longrightarrow>
      (\<exists>m. pkcs12_kdf hashlib hash_algorithm password salt iterations key_length ident n
             = (Raised (ValueError m), n))
      \<or> pkcs12_kdf hashlib hash_algorithm password salt iterations key_length ident n
          = (Raised (TypeError UnhashableType), n))
   \<and> ((\<forall>b. password \<noteq> PyBytes b) \<longrightarrow>
        pkcs12_kdf hashlib hash_algorithm password salt iterations key_length ident n
          = (Raised (ValueError PasswordNotBytes), n))
   \<and> ((\<forall>s. salt \<noteq> PyBytes s) \<longrightarrow>
        pkcs12_kdf hashlib hash_algorithm (PyBytes pw) salt iterations key_length ident n
          = (Raised (ValueError SaltNotBytes), n))
   \<and> ((\<forall>j. iterations \<noteq> PyInt j) \<longrightarrow>
        pkcs12_kdf hashlib hash_algorithm (PyBytes pw) (PyBytes sl) iterations key_length ident n
          = (Raised (ValueError IterationsNotInt), n))
   \<and> (it < 1 \<longrightarrow>
        pkcs12_kdf hashlib hash_algorithm (PyBytes pw) (PyBytes sl) (PyInt it) key_length ident n
          = (Raised (ValueError (IterationsTooSmall it)), n))
   \<and> (1 \<le> it \<and> (\<forall>l. key_length \<noteq> PyInt l) \<longrightarrow>
        pkcs12_kdf hashlib hash_algorithm (PyBytes pw) (PyBytes sl) (PyInt it) key_length ident n
          = (Raised (ValueError KeyLengthNotInt), n))
   \<and> (1 \<le> it \<and> kl < 1 \<longrightarrow>
        pkcs12_kdf hashlib hash_algorithm (PyBytes pw) (PyBytes sl) (PyInt it) (PyInt kl) ident n
          = (Raised (ValueError (KeyLengthTooSmall kl)), n))
   \<and> (1 \<le> it \<and> 1 \<le> kl \<and> hashable hash_algorithm
        \<and> (\<forall>name. hash_algorithm = PyStr name \<longrightarrow> name \<notin> set supported) \<longrightarrow>
        pkcs12_kdf hashlib hash_algorithm (PyBytes pw) (PyBytes sl) (PyInt it) (PyInt kl) ident n
          = (Raised (ValueError BadHashAlgorithm), n))
   \<and> (1 \<le> it \<and> 1 \<le> kl \<and> \<not> hashable hash_algorithm \<longrightarrow>
        pkcs12_kdf hashlib hash_algorithm (PyBytes pw) (PyBytes sl) (PyInt it) (PyInt kl) ident n
          = (Raised (TypeError UnhashableType), n))
   \<and> (1 \<le> it \<and> 1 \<le> kl \<and> name \<in> set supported
        \<and> hashable ident \<and> \<not> in_ints ident [1, 2, 3] \<longrightarrow>
        pkcs12_kdf hashlib (PyStr name) (PyBytes pw) (PyBytes sl) (PyInt it) (PyInt kl) ident n
          = (Raised (ValueError BadId), n))
   \<and> (1 \<le> it \<and> 1 \<le> kl \<and> name \<in> set supported \<and> \<not> hashable ident \<longrightarrow>
        pkcs12_kdf hashlib (PyStr name) (PyBytes pw) (PyBytes sl) (PyInt it) (PyInt kl) ident n
          = (Raised (TypeError UnhashableType), n))"
proof (intro conjI impI)
  assume "\<not> checks_pass hash_algorithm password salt iterations key_length ident"
  then show "(\<exists>m. pkcs12_kdf hashlib hash_algorithm password salt iterations key_length ident n
             = (Raised (ValueError m), n))
      \<or> pkcs12_kdf hashlib hash_algorithm password salt iterations key_length ident n
          = (Raised (TypeError UnhashableType), n)"
    by (rule checks_fail_raise)
next
  assume "\<forall>b. password \<noteq> PyBytes b"
  then show "pkcs12_kdf hashlib hash_algorithm password salt iterations key_length ident n
          = (Raised (ValueError PasswordNotBytes), n)"
    by (cases password) (simp_all add: pkcs12_kdf_def)
next
  assume "\<forall>s. salt \<noteq> PyBytes s"
  then show "pkcs12_kdf hashlib hash_algorithm (PyBytes pw) salt iterations key_length ident n
          = (Raised (ValueError SaltNotBytes), n)"
    by (cases salt) (simp_all add: pkcs12_kdf_def)
next
  assume "\<forall>j. iterations \<noteq> PyInt j"
  then show "pkcs12_kdf hashlib hash_algorithm (PyBytes pw) (PyBytes sl) iterations key_length
               ident n = (Raised (ValueError IterationsNotInt), n)"
    by (cases iterations) (simp_all add: pkcs12_kdf_def)
next
  assume "it < 1"
  then show "pkcs12_kdf hashlib hash_algorithm (PyBytes pw) (PyBytes sl) (PyInt it) key_length
               ident n = (Raised (ValueError (IterationsTooSmall it)), n)"
    by (simp add: pkcs12_kdf_def)
next
  assume "1 \<le> it \<and> (\<forall>l. key_length \<noteq> PyInt l)"
  then show "pkcs12_kdf hashlib hash_algorithm (PyBytes pw) (PyBytes sl) (PyInt it) key_length
               ident n = (Raised (ValueError KeyLengthNotInt), n)"
    by (cases key_length) (simp_all add: pkcs12_kdf_def)
next
  assume "1 \<le> it \<and> kl < 1"
  then show "pkcs12_kdf hashlib hash_algorithm (PyBytes pw) (PyBytes sl) (PyInt it) (PyInt kl)
               ident n = (Raised (ValueError (KeyLengthTooSmall kl)), n)"
    by (simp add: pkcs12_kdf_def)
next
  assume "1 \<le> it \<and> 1 \<le> kl \<and> hashable hash_algorithm
            \<and> (\<forall>name. hash_algorithm = PyStr name \<longrightarrow> name \<notin> set supported)"
  then show "pkcs12_kdf hashlib hash_algorithm (PyBytes pw) (PyBytes sl) (PyInt it) (PyInt kl)
               ident n = (Raised (ValueError BadHashAlgorithm), n)"
    by (auto simp: pkcs12_kdf_def)
next
  assume "1 \<le> it \<and> 1 \<le> kl \<and> \<not> hashable hash_algorithm"
  then show "pkcs12_kdf hashlib hash_algorithm (PyBytes pw) (PyBytes sl) (PyInt it) (PyInt kl)
               ident n = (Raised (TypeError UnhashableType), n)"
    by (simp add: pkcs12_kdf_def)
next
  assume "1 \<le> it \<and> 1 \<le> kl \<and> name \<in> set supported
            \<and> hashable ident \<and> \<not> in_ints ident [1, 2, 3]"
  then show "pkcs12_kdf hashlib (PyStr name) (PyBytes pw) (PyBytes sl) (PyInt it) (PyInt kl)
               ident n = (Raised (ValueError BadId), n)"
    by (auto simp: pkcs12_kdf_def hashable_def)
next
  assume "1 \<le> it \<and> 1 \<le> kl \<and> name \<in> set supported \<and> \<not> hashable ident"
  then show "pkcs12_kdf hashlib (PyStr name) (PyBytes pw) (PyBytes sl) (PyInt it) (PyInt kl)
               ident n = (Raised (TypeError UnhashableType), n)"
    by (auto simp: pkcs12_kdf_def hashable_def)
qed

text \<open>
  The theorem at zero iterations, at the id 4, at a list as the id, and at a text password
  with zero iterations.
\<close>

theorem invalid_arguments_rejected_witness:
  "pkcs12_kdf sample_hashlib (PyStr ''sha1'') (PyBytes [0x61]) (PyBytes []) (PyInt 0) (PyInt 16)
     (PyInt 1) 5 = (Raised (ValueError (IterationsTooSmall 0)), 5)
   \<and> pkcs12_kdf sample_hashlib (PyStr ''sha1'') (PyBytes [0x61]) (PyBytes []) (PyInt 1) (PyInt 16)
     (PyInt 4) 5 = (Raised (ValueError BadId), 5)
   \<and> pkcs12_kdf sample_hashlib (PyStr ''sha1'') (PyBytes [0x61]) (PyBytes []) (PyInt 1) (PyInt 16)
     PyList 5 = (Raised (TypeError UnhashableType), 5)
   \<and> pkcs12_kdf sample_hashlib (PyStr ''sha1'') (PyStr ''secret'') (PyBytes []) (PyInt 0) (PyInt 16)
     (PyInt 1) 5 = (Raised (ValueError PasswordNotBytes), 5)"
proof -
  have 1: "(0 :: int) < 1" by simp
  have 2: "(1 :: int) \<le> 1 \<and> (1 :: int) \<le> 16 \<and> ''sha1'' \<in> set supported
            \<and> hashable (PyInt 4) \<and> \<not> in_ints (PyInt 4) [1, 2, 3]"
    by (simp add: supported_def hashable_def in_ints_def)
  have 3: "\<forall>b. PyStr ''secret'' \<noteq> PyBytes b" by simp
  have 4: "(1 :: int) \<le> 1 \<and> (1 :: int) \<le> 16 \<and> ''sha1'' \<in> set supported \<and> \<not> hashable PyList"
    by (simp add: supported_def hashable_def)
  have a: "pkcs12_kdf sample_hashlib (PyStr ''sha1'') (PyBytes [0x61]) (PyBytes []) (PyInt 0)
             (PyInt 16) (PyInt 1) 5 = (Raised (ValueError (IterationsTooSmall 0)), 5)"
    using 1 invalid_arguments_rejected [where hashlib = sample_hashlib
        and hash_algorithm = "PyStr ''sha1''" and pw = "[0x61]" and sl = "[]" and it = 0
        and key_length = "PyInt 16" and ident = "PyInt 1" and n = 5]
    by simp
  have b: "pkcs12_kdf sample_hashlib (PyStr ''sha1'') (PyBytes [0x61]) (PyBytes []) (PyInt 1)
             (PyInt 16) (PyInt 4) 5 = (Raised (ValueError BadId), 5)"
    using 2 invalid_arguments_rejected [where hashlib = sample_hashlib
        and name = "''sha1''" and pw = "[0x61]" and sl = "[]" and it = 1 and kl = 16
        and ident = "PyInt 4" and n = 5]
    by simp
  have c: "pkcs12_kdf sample_hashlib (PyStr ''sha1'') (PyBytes [0x61]) (PyBytes []) (PyInt 1)
             (PyInt 16) PyList 5 = (Raised (TypeError UnhashableType), 5)"
    using 4 invalid_arguments_rejected [where hashlib = sample_hashlib
        and name = "''sha1''" and pw = "[0x61]" and sl = "[]" and it = 1 and kl = 16
        and ident = PyList and n = 5]
    by simp
  have d: "pkcs12_kdf sample_hashlib (PyStr ''sha1'') (PyStr ''secret'') (PyBytes []) (PyInt 0)
             (PyInt 16) (PyInt 1) 5 = (Raised (ValueError PasswordNotBytes), 5)"
    using 3 invalid_arguments_rejected [where hashlib = sample_hashlib
        and hash_algorithm = "PyStr ''sha1''" and password = "PyStr ''secret''"
        and salt = "PyBytes []" and iterations = "PyInt 0" and key_length = "PyInt 16"
        and ident = "PyInt 1" and n = 5]
    by simp
  from a b c d show ?thesis by simp
qed

section \<open>Errors of the algorithm body\<close>




section \<open>Empty salt and empty password\<close>

text \<open>
  C2 as stated says that for the empty password \<open>P\<close> is the empty byte string. The
  source appends the two-byte terminator before it tests for emptiness, so
  \<^verbatim>\<open>utf16_password\<close> is never empty: for the empty password \<open>P\<close> is a full block of
  64 zero bytes (sha1).
\<close>

theorem empty_password_block_counterexample:
  "Option.bind (utf16_password []) (stretch (block_size ''sha1'')) = Some (replicate 64 0)
   \<and> Option.bind (utf16_password []) (stretch (block_size ''sha1'')) \<noteq> Some []"
proof -
  have "utf16_password [] = Some [0, 0]" by (simp add: utf16_password_def)
  moreover have "block_size ''sha1'' = 64" by (simp add: block_size_def)
  ultimately show ?thesis using stretch_terminator [of 64] by simp
qed

text \<open>
  C2, amended. Calling \<^verbatim>\<open>pkcs12_kdf\<close> with an empty salt and/or an empty password does
  not fail: with a digest provider that keeps its contract and otherwise valid arguments,
  the key length below \<open>2 ^ 53\<close>, the call returns. When the salt is empty, \<open>S\<close> is the empty byte string and \<open>I\<close> is
  \<open>P\<close>. When the password is empty, \<^verbatim>\<open>utf16_password\<close> is the two-byte terminator, so
  \<open>P\<close> is \<open>v\<close> zero bytes and \<open>I\<close> is \<open>S\<close> followed by \<open>v\<close> zero bytes. The
  block \<open>P\<close> is built for every password and is never empty.
\<close>

theorem empty_salt_and_password:
  assumes prov: "digest_provider hashlib" and u: "digest_size name = Some u"
    and it: "1 \<le> iterations" and kl: "1 \<le> key_length" and ident: "ident \<in> {1, 2, 3}"
    and float: "key_length < 2 ^ 53"
    and P: "Option.bind (utf16_password password) (stretch (block_size name)) = Some P"
    and S: "stretch (block_size name) salt = Some S"
  shows "stretch (block_size name) [] = Some []
       \<and> Option.bind (utf16_password []) (stretch (block_size name))
           = Some (replicate (block_size name) 0)
       \<and> P \<noteq> []
       \<and> (\<exists>out k. pkcs12_kdf hashlib (PyStr name) (PyBytes password) (PyBytes []) (PyInt iterations)
                     (PyInt key_length) (PyInt ident) n = (Returned out, k))
       \<and> (\<exists>out k. pkcs12_kdf hashlib (PyStr name) (PyBytes []) (PyBytes salt) (PyInt iterations)
                     (PyInt key_length) (PyInt ident) n = (Returned out, k))
       \<and> pkcs12_kdf hashlib (PyStr name) (PyBytes password) (PyBytes []) (PyInt iterations)
           (PyInt key_length) (PyInt ident) n
           = (case for_range
                     (block (hashlib name) u (block_size name) (nat iterations) (nat key_length)
                        (ceil_div (nat key_length) u)
                        (concat (replicate (block_size name) (chr_cls ident))))
                     [1..<ceil_div (nat key_length) u + 1]
                     \<lparr>I_buf = P, A_buf = replicate (ceil_div (nat key_length) u * u) 0,
                        calls = n\<rparr> of
                None \<Rightarrow> (Diverged, n)
              | Some st \<Rightarrow> (Returned (take (nat key_length) (A_buf st)), calls st))
       \<and> pkcs12_kdf hashlib (PyStr name) (PyBytes []) (PyBytes salt) (PyInt iterations)
           (PyInt key_length) (PyInt ident) n
           = (case for_range
                     (block (hashlib name) u (block_size name) (nat iterations) (nat key_length)
                        (ceil_div (nat key_length) u)
                        (concat (replicate (block_size name) (chr_cls ident))))
                     [1..<ceil_div (nat key_length) u + 1]
                     \<lparr>I_buf = S @ replicate (block_size name) 0,
                        A_buf = replicate (ceil_div (nat key_length) u * u) 0, calls = n\<rparr> of
                None \<Rightarrow> (Diverged, n)
              | Some st \<Rightarrow> (Returned (take (nat key_length) (A_buf st)), calls st))"
proof -
  let ?v = "block_size name"
  have name: "name \<in> set supported" by (rule digest_size_supported [OF u])
  note run = pkcs12_kdf_valid [OF name it kl ident, of hashlib]
  obtain utf16 where pw: "utf16_password password = Some utf16" and P': "stretch ?v utf16 = Some P"
    using P by (auto simp: bind_eq_Some_conv)
  have e: "utf16_password [] = Some [0, 0]" by (simp add: utf16_password_def)
  have z: "stretch ?v [0, 0] = Some (replicate ?v 0)"
    by (rule stretch_terminator [OF block_size_ge])
  have 1: "stretch ?v [] = Some []" by (simp add: stretch_def)
  have 2: "Option.bind (utf16_password []) (stretch ?v) = Some (replicate ?v 0)"
    using e z by simp
  have "length P = ?v * ceil_div (length utf16) ?v"
    using stretch_Some [of ?v utf16] P' utf16_password_nonempty [OF pw] by simp
  moreover have "0 < ceil_div (length utf16) ?v"
    using utf16_password_nonempty [OF pw] ceil_div_ge [of ?v "length utf16"] block_size_ge [of name]
    by (cases "ceil_div (length utf16) ?v") auto
  ultimately have 3: "P \<noteq> []" using block_size_ge [of name] by auto
  have u0: "0 < u" using digest_size_ge [OF u] by simp
  have "nat key_length < 2 ^ 53" using kl float by simp
  then have c: "py_ceil (nat key_length) u = Some (ceil_div (nat key_length) u)"
    by (rule py_ceil_exact [OF _ u0])
  have 4: "\<exists>out k. pkcs12_kdf hashlib (PyStr name) (PyBytes password) (PyBytes []) (PyInt iterations)
                     (PyInt key_length) (PyInt ident) n = (Returned out, k)"
    unfolding run using kdf_body_returns [OF prov u pw c] by blast
  have 5: "\<exists>out k. pkcs12_kdf hashlib (PyStr name) (PyBytes []) (PyBytes salt) (PyInt iterations)
                     (PyInt key_length) (PyInt ident) n = (Returned out, k)"
    unfolding run using kdf_body_returns [OF prov u e c] by blast
  note 6 = kdf_body_unfold [OF u pw 1 P' c, of hashlib "nat iterations" ident n]
  note 7 = kdf_body_unfold [OF u e S z c, of hashlib "nat iterations" ident n]
  show ?thesis
    unfolding run using 1 2 3 4 [unfolded run] 5 [unfolded run] 6 7 by simp
qed

text \<open>The theorem at md5 with the password \<^verbatim>\<open>a\<close> and the empty salt, and with both empty.\<close>

theorem empty_salt_and_password_witness:
  "([0, 0x61, 0, 0, 0, 0x61, 0, 0, 0, 0x61, 0, 0, 0, 0x61, 0, 0, 0, 0x61, 0, 0, 0,
        0x61, 0, 0, 0, 0x61, 0, 0, 0, 0x61, 0, 0, 0, 0x61, 0, 0, 0, 0x61, 0, 0, 0, 0x61,
        0, 0, 0, 0x61, 0, 0, 0, 0x61, 0, 0, 0, 0x61, 0, 0, 0, 0x61, 0, 0, 0, 0x61, 0, 0] :: bytes) \<noteq> []
   \<and> (\<exists>out k. pkcs12_kdf sample_hashlib (PyStr ''md5'') (PyBytes [0x61]) (PyBytes []) (PyInt 1)
                (PyInt 40) (PyInt 1) 0 = (Returned out, k))
   \<and> (\<exists>out k. pkcs12_kdf sample_hashlib (PyStr ''md5'') (PyBytes []) (PyBytes []) (PyInt 1)
                (PyInt 40) (PyInt 1) 0 = (Returned out, k))"
proof -
  have 1: "digest_size ''md5'' = Some 16" by (simp add: digest_size_def)
  have 2: "(1 :: int) \<le> 1" "(1 :: int) \<le> 40" "(1 :: int) \<in> {1, 2, 3}"
    "(40 :: int) < 2 ^ 53" by simp_all
  have 3: "Option.bind (utf16_password [0x61]) (stretch (block_size ''md5''))
             = Some
        [0, 0x61, 0, 0, 0, 0x61, 0, 0, 0, 0x61, 0, 0, 0, 0x61, 0, 0, 0, 0x61, 0, 0, 0,
        0x61, 0, 0, 0, 0x61, 0, 0, 0, 0x61, 0, 0, 0, 0x61, 0, 0, 0, 0x61, 0, 0, 0, 0x61,
        0, 0, 0, 0x61, 0, 0, 0, 0x61, 0, 0, 0, 0x61, 0, 0, 0, 0x61, 0, 0, 0, 0x61, 0, 0]"
    by (simp add: utf16_password_def utf16be_unit_def block_size_def stretch_def ceil_div_def
        repeat_until.simps)
  have 4: "stretch (block_size ''md5'') [] = Some []" by (simp add: stretch_def)
  show ?thesis
    using empty_salt_and_password [OF sample_provider 1 2 3 4, of 0] by blast
qed

section \<open>The chunk update of step 6C\<close>

text \<open>
  C1 says that every chunk of \<open>I\<close> is replaced by exactly \<open>v\<close> bytes, a shorter
  re-encoding being padded, so that the length of \<open>I\<close> never changes. The source cuts
  a result longer than \<open>v\<close> and writes a shorter one back as it is. In the call
  \<^verbatim>\<open>pkcs12_kdf('sha1', b'bg', b'', 1, 40, 1)\<close> the first digest begins with a zero byte
  and so does the only chunk of \<open>I\<close>: their sum has 63 bytes, the first block leaves
  \<open>I\<close> with 63 bytes, and the second block of the key is the digest of that shorter
  \<open>I\<close>. The statement below is the model evaluated at this call.
\<close>

theorem chunk_update_shortens_I:
  "block (recorded_hashlib ''sha1'') 20 64 1 40 2 (replicate 64 1) 1
      \<lparr>I_buf = P_bg, A_buf = replicate 40 0, calls = 0\<rparr>
     = Some \<lparr>I_buf = I_bg, A_buf = sha1_block1 @ replicate 20 0, calls = 1\<rparr>
   \<and> length P_bg = 64 \<and> length I_bg = 63 \<and> length I_bg mod 64 \<noteq> 0
   \<and> pkcs12_kdf recorded_hashlib (PyStr ''sha1'') (PyBytes [0x62, 0x67]) (PyBytes []) (PyInt 1)
       (PyInt 40) (PyInt 1) 0 = (Returned (sha1_block1 @ sha1_block2), 2)"
proof -
  have u: "digest_size ''sha1'' = Some 20" by (simp add: digest_size_def)
  have v: "block_size ''sha1'' = 64" by (simp add: block_size_def)
  have c: "py_ceil 40 20 = Some 2"
    by (simp add: py_ceil_def py_float_def float_div_ceil_def shift_down.simps shift_up.simps
        round_half_even_def ceil_div_def Let_def)
  have r: "[1..<2 + 1] = [1, 2 :: nat]" by (simp add: upt_rec)
  have S: "stretch (block_size ''sha1'') [] = Some []" by (simp add: stretch_def)
  have D: "concat (replicate (block_size ''sha1'') (chr_cls 1)) = replicate 64 1"
    by (simp add: v chr_cls_def concat_replicate_single)
  have loop: "for_range (block (recorded_hashlib ''sha1'') 20 64 1 40 2 (replicate 64 1))
                [1..<2 + 1] \<lparr>I_buf = [] @ P_bg, A_buf = replicate (2 * 20) 0, calls = 0\<rparr>
              = Some \<lparr>I_buf = I_bg, A_buf = sha1_block1 @ sha1_block2, calls = 2\<rparr>"
    unfolding r using block1_bg block2_bg by simp
  have "take 40 (sha1_block1 @ sha1_block2) = sha1_block1 @ sha1_block2"
    by (simp add: lengths_bg)
  then have body: "kdf_body recorded_hashlib ''sha1'' [0x62, 0x67] [] 1 40 (PyInt 1) 0
                = (Returned (sha1_block1 @ sha1_block2), 2)"
    unfolding kdf_body_unfold [OF u stretch_bg(1) S stretch_bg(2) [folded v] c] D
    unfolding v loop by simp
  have "pkcs12_kdf recorded_hashlib (PyStr ''sha1'') (PyBytes [0x62, 0x67]) (PyBytes []) (PyInt 1)
       (PyInt 40) (PyInt 1) 0 = (Returned (sha1_block1 @ sha1_block2), 2)"
    using body by (simp add: pkcs12_kdf_def supported_def hashable_def in_ints_def)
  then show ?thesis using block1_bg lengths_bg by simp
qed

end
